theory Spec2Isabelle
  imports
    Main
    "HOL-Library.Word"
    "HOL-Library.Multiset"
    "HOL-Library.Char_ord"
    "HOL-Library.List_Lexorder"
begin

section \<open>Data model\<close>

text \<open>
  The program (package \<open>main\<close> of m4ns0ur/covid) keeps every dataset as a value of
  \<^verbatim>\<open>type data struct { header []string; records []record }\<close> with
  \<^verbatim>\<open>type record struct { province, country string; lat, long float32; cases []int }\<close>.

  A Go slice is a reference to a backing array. Methods with a value receiver
  (\<^verbatim>\<open>func (d data) reduce()\<close>) copy the two slice headers of \<open>d\<close>, not the arrays, and
  copying a \<open>record\<close> copies the header of \<open>cases\<close>, not its integers. The integer
  arrays therefore live in an explicit store, and a record holds the address of its array
  (\<open>None\<close> is the nil slice, of length 0). The program never re-slices \<open>cases\<close>, so the
  length of the slice is the length of the array.

  Go's \<open>int\<close> is taken at 64 bits: addition wraps, comparison is signed. Strings are byte
  sequences, compared bytewise (\<open>HOL-Library.Char_ord\<close>, \<open>HOL-Library.List_Lexorder\<close>).
  The two \<open>float32\<close> coordinates are carried as their 32 bits; the program never
  computes with them.

  \<open>record\<close> is a keyword of Isabelle, so the Go type \<open>record\<close> is the type
  \<open>region\<close> here; the methods \<open>sort\<close>, \<open>sum\<close> and \<open>filter\<close> are
  \<open>sort_latest\<close>, \<open>sum_cases\<close> and \<open>filter_country\<close>, their own names being
  constants of HOL. A runtime panic and \<open>os.Exit(1)\<close> end the process; both are error
  values of the model.
\<close>

type_synonym addr = nat
type_synonym goint = "64 word"
type_synonym float32 = "32 word"
type_synonym heap = "addr \<Rightarrow> goint list"

record region =
  province :: string
  country :: string
  lat :: float32
  long :: float32
  cases :: "addr option"

record data =
  header :: "string list"
  records :: "region list"

datatype error =
    IndexOutOfRange     \<comment> \<open>runtime panic: index out of range\<close>
  | FieldParseError     \<comment> \<open>\<open>strconv.Atoi\<close> / \<open>strconv.ParseFloat\<close> failed: \<open>os.Exit(1)\<close>\<close>

text \<open>The contents of \<open>r.cases\<close> in store \<open>h\<close>.\<close>

definition cases_of :: "heap \<Rightarrow> region \<Rightarrow> goint list" where
  "cases_of h r = (case cases r of None \<Rightarrow> [] | Some a \<Rightarrow> h a)"

text \<open>The zero value \<^verbatim>\<open>record{}\<close>.\<close>

definition zero_record :: region where
  "zero_record = \<lparr>province = [], country = [], lat = 0, long = 0, cases = None\<rparr>"

section \<open>\<open>sort.Slice\<close>\<close>

text \<open>
  \<open>sort.Slice(x, less)\<close> belongs to Go's standard library. It rearranges \<open>x\<close> in
  place by swaps and decides by calls \<open>less(i, j)\<close> on indices of \<open>x\<close>; \<open>less\<close> is a
  closure of the caller, which reads the slice as it is at the moment of the call and may
  panic. The function is documented as not stable and its algorithm differs between Go
  releases, so it is a parameter \<open>srt\<close> of the model: \<open>srt cl xs\<close> is the outcome
  of the call on a slice that holds \<open>xs\<close>, where \<open>cl ys i j\<close> is the outcome of
  \<open>less(i, j)\<close> while the slice holds \<open>ys\<close>.

  What the library promises, in the order of \<open>slice_sort_spec\<close>: the slice it leaves is
  a rearrangement of \<open>xs\<close>; it panics only with a panic of \<open>less\<close>, called on a
  rearrangement of \<open>xs\<close> and two of its indices; on fewer than two elements it calls
  nothing and changes nothing; and when \<open>less\<close> decides an ordering \<open>lt\<close> of the
  elements (irreflexive, and transitive together with its incomparability) on whatever
  rearrangement it is called, no later element of the result is \<open>lt\<close> an earlier one.
\<close>

type_synonym 'a closure = "'a list \<Rightarrow> nat \<Rightarrow> nat \<Rightarrow> error + bool"

definition strict_weak :: "('a \<Rightarrow> 'a \<Rightarrow> bool) \<Rightarrow> bool" where
  "strict_weak lt \<longleftrightarrow>
     (\<forall>a b. lt a b \<longrightarrow> \<not> lt b a) \<and>
     (\<forall>a b c. \<not> lt b a \<longrightarrow> \<not> lt c b \<longrightarrow> \<not> lt c a)"

definition follows :: "'a closure \<Rightarrow> ('a \<Rightarrow> 'a \<Rightarrow> bool) \<Rightarrow> 'a list \<Rightarrow> bool" where
  "follows cl lt xs \<longleftrightarrow>
     (\<forall>ys i j. mset ys = mset xs \<longrightarrow> i < length ys \<longrightarrow> j < length ys \<longrightarrow>
        cl ys i j = Inr (lt (ys ! i) (ys ! j)))"

definition slice_sort_spec :: "('a closure \<Rightarrow> 'a list \<Rightarrow> error + 'a list) \<Rightarrow> bool" where
  "slice_sort_spec srt \<longleftrightarrow>
     (\<forall>cl xs ys. srt cl xs = Inr ys \<longrightarrow> mset ys = mset xs) \<and>
     (\<forall>cl xs e. srt cl xs = Inl e \<longrightarrow>
        (\<exists>ys i j. mset ys = mset xs \<and> i < length ys \<and> j < length ys \<and> cl ys i j = Inl e)) \<and>
     (\<forall>cl xs. length xs < 2 \<longrightarrow> srt cl xs = Inr xs) \<and>
     (\<forall>cl lt xs ys. strict_weak lt \<longrightarrow> follows cl lt xs \<longrightarrow> srt cl xs = Inr ys \<longrightarrow>
        sorted_wrt (\<lambda>a b. \<not> lt b a) ys)"

text \<open>
  One sorting function that meets the contract: the insertion sort that \<open>sort.Slice\<close>
  itself runs on a short slice.
  \<^verbatim>\<open>
  func insertionSort_func(data lessSwap, a, b int) {
      for i := a + 1; i < b; i++ {
          for j := i; j > a && data.Less(j, j-1); j-- {
              data.Swap(j, j-1)
          }
      }
  }
  \<close>
  In \<open>insertion cl pre post\<close> the slice holds \<open>pre @ post\<close> and \<open>i\<close> is the length of
  \<open>pre\<close>. In \<open>sift cl ls x ms post\<close> the slice holds \<open>rev ls @ x # ms @ post\<close> and
  \<open>j\<close> is the length of \<open>ls\<close>: \<open>x\<close> is the element on its way down, \<open>ms\<close> are the
  elements it has passed. The result of \<open>sift\<close> is the new \<open>pre\<close>.
\<close>

fun sift :: "'a closure \<Rightarrow> 'a list \<Rightarrow> 'a \<Rightarrow> 'a list \<Rightarrow> 'a list \<Rightarrow> error + 'a list" where
  "sift cl [] x ms post = Inr (x # ms)"
| "sift cl (y # ls) x ms post =
     (case cl (rev ls @ y # x # ms @ post) (Suc (length ls)) (length ls) of
        Inl e \<Rightarrow> Inl e
      | Inr b \<Rightarrow> if b then sift cl ls x (y # ms) post else Inr (rev ls @ y # x # ms))"

fun insertion :: "'a closure \<Rightarrow> 'a list \<Rightarrow> 'a list \<Rightarrow> error + 'a list" where
  "insertion cl pre [] = Inr pre"
| "insertion cl pre (x # post) =
     (case sift cl (rev pre) x [] post of
        Inl e \<Rightarrow> Inl e
      | Inr pre' \<Rightarrow> insertion cl pre' post)"

definition isort_by :: "'a closure \<Rightarrow> 'a list \<Rightarrow> error + 'a list" where
  "isort_by cl xs = insertion cl [] xs"

section \<open>The aggregator\<close>

subsection \<open>\<open>sortCountry\<close> and \<open>sort\<close>\<close>

text \<open>
  \<^verbatim>\<open>
  func (d data) sortCountry() {
      sort.Slice(d.records, func(i, j int) bool {
          return d.records[i].country < d.records[j].country
      })
  }
  \<close>
  The receiver is a copy, but \<open>d.records\<close> refers to the caller's array: the result is
  what the caller's dataset holds afterwards. \<open>d.records[i]\<close> panics on an index
  outside the slice; \<open>country_less\<close> is the ordering the closure decides on the
  indices of the slice.
\<close>

definition country_less :: "region \<Rightarrow> region \<Rightarrow> bool" where
  "country_less a b \<longleftrightarrow> country a < country b"

definition less_country :: "region closure" where
  "less_country xs i j =
     (if i < length xs \<and> j < length xs then Inr (country (xs ! i) < country (xs ! j))
      else Inl IndexOutOfRange)"

definition sortCountry ::
  "(region closure \<Rightarrow> region list \<Rightarrow> error + region list) \<Rightarrow> data \<Rightarrow> error + data" where
  "sortCountry srt d =
     (case srt less_country (records d) of
        Inl e \<Rightarrow> Inl e
      | Inr ys \<Rightarrow> Inr (d\<lparr>records := ys\<rparr>))"

text \<open>
  \<^verbatim>\<open>
  func (d data) sort() {
      sort.Slice(d.records, func(i, j int) bool {
          return d.records[i].cases[len(d.records[0].cases)-1] >
                 d.records[j].cases[len(d.records[0].cases)-1]
      })
  }
  \<close>
  The closure takes the column from the record that is first in the slice at the moment
  of the call, and panics when one of the two records it compares has no such column
  (with \<open>len(d.records[0].cases) = 0\<close> the column is \<open>-1\<close>, which no record has).
  \<open>latest_greater h k\<close> is the ordering it decides when the column is \<open>k\<close> throughout.
\<close>

definition latest_greater :: "heap \<Rightarrow> nat \<Rightarrow> region \<Rightarrow> region \<Rightarrow> bool" where
  "latest_greater h k a b \<longleftrightarrow> sint (cases_of h b ! k) < sint (cases_of h a ! k)"

definition less_latest :: "heap \<Rightarrow> region closure" where
  "less_latest h xs i j =
     (case xs of
        [] \<Rightarrow> Inl IndexOutOfRange
      | x0 # _ \<Rightarrow>
          let n = length (cases_of h x0) in
          if i < length xs \<and> j < length xs \<and> 0 < n \<and>
             n \<le> length (cases_of h (xs ! i)) \<and> n \<le> length (cases_of h (xs ! j))
          then Inr (sint (cases_of h (xs ! j) ! (n - 1)) < sint (cases_of h (xs ! i) ! (n - 1)))
          else Inl IndexOutOfRange)"

definition sort_latest ::
  "(region closure \<Rightarrow> region list \<Rightarrow> error + region list) \<Rightarrow> data \<Rightarrow> heap \<Rightarrow> error + data" where
  "sort_latest srt d h =
     (case srt (less_latest h) (records d) of
        Inl e \<Rightarrow> Inl e
      | Inr ys \<Rightarrow> Inr (d\<lparr>records := ys\<rparr>))"

subsection \<open>\<open>reduce\<close>\<close>

text \<open>
  \<^verbatim>\<open>
  func (d data) reduce() data {
      d.sortCountry()
      var rs []record
      c := ""
      for i := 0; i < len(d.records); i++ {
          if d.records[i].country != c {
              rs = append(rs, d.records[i])
              c = d.records[i].country
          } else {
              l := len(rs) - 1
              for j := 0; j < len(d.records[i].cases); j++ {
                  rs[l].cases[j] += d.records[i].cases[j]
              }
          }
      }
      return data{d.header, rs}
  }
  \<close>
  \<open>append(rs, d.records[i])\<close> copies the record and with it the reference to its case
  array, so \<open>rs[l].cases\<close> is the array of the source record that opened the group.
  \<open>rs[l]\<close> with \<open>l = -1\<close> and \<open>rs[l].cases[j]\<close> beyond the length panic; the read
  \<open>d.records[i].cases[j]\<close> is in range by the loop condition. Both reads go through
  the store as it is at that moment.
\<close>

definition add_at :: "region list \<Rightarrow> region \<Rightarrow> nat \<Rightarrow> heap \<Rightarrow> error + heap" where
  "add_at rs r j h =
     (if rs = [] then Inl IndexOutOfRange
      else case cases (last rs) of
             None \<Rightarrow> Inl IndexOutOfRange
           | Some a \<Rightarrow>
               if j < length (h a)
               then Inr (h(a := (h a)[j := h a ! j + cases_of h r ! j]))
               else Inl IndexOutOfRange)"

fun add_loop :: "region list \<Rightarrow> region \<Rightarrow> nat list \<Rightarrow> heap \<Rightarrow> error + heap" where
  "add_loop rs r [] h = Inr h"
| "add_loop rs r (j # js) h =
     (case add_at rs r j h of Inl e \<Rightarrow> Inl e | Inr h' \<Rightarrow> add_loop rs r js h')"

fun reduce_loop ::
  "region list \<Rightarrow> string \<Rightarrow> region list \<Rightarrow> heap \<Rightarrow> error + (region list \<times> heap)" where
  "reduce_loop [] c rs h = Inr (rs, h)"
| "reduce_loop (r # rest) c rs h =
     (if country r \<noteq> c then reduce_loop rest (country r) (rs @ [r]) h
      else case add_loop rs r [0..<length (cases_of h r)] h of
             Inl e \<Rightarrow> Inl e
           | Inr h' \<Rightarrow> reduce_loop rest c rs h')"

text \<open>
  The result of \<open>reduce\<close> is the caller's dataset as the call leaves it (sorted in place),
  the returned dataset, and the store.
\<close>

definition reduce ::
  "(region closure \<Rightarrow> region list \<Rightarrow> error + region list) \<Rightarrow> data \<Rightarrow> heap
     \<Rightarrow> error + (data \<times> data \<times> heap)" where
  "reduce srt d h =
     (case sortCountry srt d of
        Inl e \<Rightarrow> Inl e
      | Inr d' \<Rightarrow>
          (case reduce_loop (records d') [] [] h of
             Inl e \<Rightarrow> Inl e
           | Inr (rs, h') \<Rightarrow> Inr (d', \<lparr>header = header d, records = rs\<rparr>, h')))"

subsection \<open>\<open>filter\<close>\<close>

text \<open>
  \<^verbatim>\<open>
  func (d data) filter(c string) (record, bool) {
      d.reduce()
      for i := 0; i < len(d.records); i++ {
          if strings.EqualFold(d.records[i].country, c) {
              return d.records[i], true
          }
      }
      return record{}, false
  }
  \<close>
  The dataset returned by \<open>reduce\<close> is dropped; the loop reads the caller's records as
  \<open>reduce\<close> left them. \<open>strings.EqualFold\<close> (equality under Unicode simple case
  folding) is a parameter \<open>ef\<close>.
\<close>

fun find_country :: "(string \<Rightarrow> string \<Rightarrow> bool) \<Rightarrow> string \<Rightarrow> region list \<Rightarrow> region \<times> bool" where
  "find_country ef c [] = (zero_record, False)"
| "find_country ef c (r # rs) = (if ef (country r) c then (r, True) else find_country ef c rs)"

definition filter_country ::
  "(string \<Rightarrow> string \<Rightarrow> bool) \<Rightarrow> (region closure \<Rightarrow> region list \<Rightarrow> error + region list)
     \<Rightarrow> string \<Rightarrow> data \<Rightarrow> heap \<Rightarrow> error + ((region \<times> bool) \<times> data \<times> heap)" where
  "filter_country ef srt c d h =
     (case reduce srt d h of
        Inl e \<Rightarrow> Inl e
      | Inr (d', _, h') \<Rightarrow> Inr (find_country ef c (records d'), d', h'))"

text \<open>
  On ASCII strings \<open>strings.EqualFold\<close> is equality after mapping \<open>A\<close>..\<open>Z\<close> to
  \<open>a\<close>..\<open>z\<close>; this instance is used where a concrete run is evaluated.
\<close>

definition ascii_lower :: "char \<Rightarrow> char" where
  "ascii_lower ch =
     (case map_of (zip ''ABCDEFGHIJKLMNOPQRSTUVWXYZ'' ''abcdefghijklmnopqrstuvwxyz'') ch of
        None \<Rightarrow> ch
      | Some l \<Rightarrow> l)"

definition equal_fold_ascii :: "string \<Rightarrow> string \<Rightarrow> bool" where
  "equal_fold_ascii s t \<longleftrightarrow> map ascii_lower s = map ascii_lower t"

subsection \<open>\<open>sum\<close> and \<open>printCases\<close>\<close>

text \<open>
  \<^verbatim>\<open>
  func (d data) sum(c int) int {
      if c < 0 {
          c = len(d.records[0].cases) + c
      }
      s := 0
      for _, r := range d.records {
          s += r.cases[c]
      }
      return s
  }
  \<close>
\<close>

fun sum_loop :: "int \<Rightarrow> region list \<Rightarrow> heap \<Rightarrow> goint \<Rightarrow> error + goint" where
  "sum_loop k [] h s = Inr s"
| "sum_loop k (r # rs) h s =
     (if 0 \<le> k \<and> k < int (length (cases_of h r))
      then sum_loop k rs h (s + cases_of h r ! nat k)
      else Inl IndexOutOfRange)"

definition sum_cases :: "data \<Rightarrow> int \<Rightarrow> heap \<Rightarrow> error + goint" where
  "sum_cases d c h =
     (if c < 0
      then (case records d of
              [] \<Rightarrow> Inl IndexOutOfRange
            | r0 # _ \<Rightarrow> sum_loop (int (length (cases_of h r0)) + c) (records d) h 0)
      else sum_loop c (records d) h 0)"

text \<open>
  \<^verbatim>\<open>
  func (d data) printCases(t string, c func(a ...interface{}) string) {
      s := d.sum(-1)
      n := s - d.sum(-2)
      fmt.Fprintf(w, "%v: \t%v \tNew: %v\n", t, c(p.Sprint(s)), c(p.Sprint(n)))
  }
  \<close>
  The model returns the two numbers that are printed: the total and the day's change.
\<close>

definition printCases :: "data \<Rightarrow> heap \<Rightarrow> error + (goint \<times> goint)" where
  "printCases d h =
     (case sum_cases d (- 1) h of
        Inl e \<Rightarrow> Inl e
      | Inr s \<Rightarrow> (case sum_cases d (- 2) h of
                   Inl e \<Rightarrow> Inl e
                 | Inr s2 \<Rightarrow> Inr (s, s - s2)))"

subsection \<open>The top-n loops of \<open>main\<close>\<close>

text \<open>
  \<^verbatim>\<open>
  rconf := conf.reduce()
  rconf.sort()
  for i := 0; i < 10; i++ {
      fmt.Fprintf(w, "%2v-%v\t%v\n", i+1, rconf.records[i].country,
          yellow(rconf.records[i].cases[len(rconf.records[i].cases)-1]))
  }
  \<close>
  The loop bound is the constant 10; the model takes it as \<open>n\<close>. Each round reads
  \<open>records[i]\<close> and the last entry of its case sequence.
\<close>

fun top_rows :: "nat list \<Rightarrow> data \<Rightarrow> heap \<Rightarrow> error + (string \<times> goint) list" where
  "top_rows [] d h = Inr []"
| "top_rows (i # is) d h =
     (if i < length (records d) \<and> cases_of h (records d ! i) \<noteq> []
      then (case top_rows is d h of
              Inl e \<Rightarrow> Inl e
            | Inr out \<Rightarrow>
                Inr ((country (records d ! i), last (cases_of h (records d ! i))) # out))
      else Inl IndexOutOfRange)"

definition topN ::
  "(region closure \<Rightarrow> region list \<Rightarrow> error + region list) \<Rightarrow> nat \<Rightarrow> data \<Rightarrow> heap
     \<Rightarrow> error + (string \<times> goint) list" where
  "topN srt n d h =
     (case reduce srt d h of
        Inl e \<Rightarrow> Inl e
      | Inr (_, r, h') \<Rightarrow>
          (case sort_latest srt r h' of
             Inl e \<Rightarrow> Inl e
           | Inr r' \<Rightarrow> top_rows [0..<n] r' h'))"

text \<open>
  The variant in \<open>covid.go\<close> sorts the decoded dataset itself and prints the names only:
  \<^verbatim>\<open>
  conf.sort()
  for i := 0; i < 10; i++ {
      fmt.Printf("%v\n", yellow(i+1, "-", conf.records[i].country))
  }
  \<close>
\<close>

fun top_names :: "nat list \<Rightarrow> data \<Rightarrow> error + string list" where
  "top_names [] d = Inr []"
| "top_names (i # is) d =
     (if i < length (records d)
      then (case top_names is d of
              Inl e \<Rightarrow> Inl e
            | Inr out \<Rightarrow> Inr (country (records d ! i) # out))
      else Inl IndexOutOfRange)"

definition top_names_sorted ::
  "(region closure \<Rightarrow> region list \<Rightarrow> error + region list) \<Rightarrow> nat \<Rightarrow> data \<Rightarrow> heap
     \<Rightarrow> error + string list" where
  "top_names_sorted srt n d h =
     (case sort_latest srt d h of
        Inl e \<Rightarrow> Inl e
      | Inr d' \<Rightarrow> top_names [0..<n] d')"

section \<open>The decoder\<close>

text \<open>
  \<^verbatim>\<open>
  var recs []record
  for i := 1; i < len(rr); i++ {
      var cases []int
      for j := 4; j < len(rr[0]); j++ {
          n, err := strconv.Atoi(rr[i][j])
          if err != nil { ...; os.Exit(1) }
          cases = append(cases, n)
      }
      recs = append(recs, record{rr[i][0], rr[i][1], atof(rr[i][2]), atof(rr[i][3]), cases})
  }
  wg.Done()
  co <- data{rr[0], recs}
  \<close>
  (\<open>decode\<close>, and \<open>convertAndSave\<close> in \<open>covid.go\<close> with the same loop.) The model
  starts from the table \<open>rr\<close> returned by \<open>csv.Reader.ReadAll\<close>; \<open>strconv.Atoi\<close> and
  \<open>strconv.ParseFloat\<close> are the parameters \<open>atoi\<close> and \<open>atof\<close>. A case sequence that
  receives at least one \<open>append\<close> is a new array, at the next unused address \<open>n\<close>;
  one that receives none stays nil. The store is passed with that address as a pair.
  The fields of the record are read from left to right; a read beyond the row is a
  panic, a field that does not parse ends the process.
\<close>

fun parse_cases :: "(string \<Rightarrow> goint option) \<Rightarrow> string list \<Rightarrow> nat list \<Rightarrow> error + goint list" where
  "parse_cases atoi row [] = Inr []"
| "parse_cases atoi row (j # js) =
     (if j < length row
      then (case atoi (row ! j) of
              None \<Rightarrow> Inl FieldParseError
            | Some v \<Rightarrow> (case parse_cases atoi row js of
                          Inl e \<Rightarrow> Inl e
                        | Inr vs \<Rightarrow> Inr (v # vs)))
      else Inl IndexOutOfRange)"

definition decode_row ::
  "(string \<Rightarrow> goint option) \<Rightarrow> (string \<Rightarrow> float32 option) \<Rightarrow> nat \<Rightarrow> string list
     \<Rightarrow> heap \<times> addr \<Rightarrow> error + (region \<times> heap \<times> addr)" where
  "decode_row atoi atof w row s =
     (case parse_cases atoi row [4..<w] of
        Inl e \<Rightarrow> Inl e
      | Inr vs \<Rightarrow>
          if length row < 3 then Inl IndexOutOfRange
          else (case atof (row ! 2) of
                  None \<Rightarrow> Inl FieldParseError
                | Some la \<Rightarrow>
                    if length row < 4 then Inl IndexOutOfRange
                    else (case atof (row ! 3) of
                            None \<Rightarrow> Inl FieldParseError
                          | Some lo \<Rightarrow>
                              if vs = []
                              then Inr (\<lparr>province = row ! 0, country = row ! 1, lat = la,
                                          long = lo, cases = None\<rparr>, s)
                              else Inr (\<lparr>province = row ! 0, country = row ! 1, lat = la,
                                          long = lo, cases = Some (snd s)\<rparr>,
                                        (fst s)(snd s := vs), Suc (snd s)))))"

fun decode_rows ::
  "(string \<Rightarrow> goint option) \<Rightarrow> (string \<Rightarrow> float32 option) \<Rightarrow> nat \<Rightarrow> string list list
     \<Rightarrow> heap \<times> addr \<Rightarrow> error + (region list \<times> heap \<times> addr)" where
  "decode_rows atoi atof w [] s = Inr ([], s)"
| "decode_rows atoi atof w (row # rows) s =
     (case decode_row atoi atof w row s of
        Inl e \<Rightarrow> Inl e
      | Inr (r, s') \<Rightarrow>
          (case decode_rows atoi atof w rows s' of
             Inl e \<Rightarrow> Inl e
           | Inr (rs, s'') \<Rightarrow> Inr (r # rs, s'')))"

definition decode ::
  "(string \<Rightarrow> goint option) \<Rightarrow> (string \<Rightarrow> float32 option) \<Rightarrow> string list list
     \<Rightarrow> heap \<times> addr \<Rightarrow> error + (data \<times> heap \<times> addr)" where
  "decode atoi atof rr s =
     (case rr of
        [] \<Rightarrow> Inl IndexOutOfRange
      | hdr # rows \<Rightarrow>
          (case decode_rows atoi atof (length hdr) rows s of
             Inl e \<Rightarrow> Inl e
           | Inr (rs, s') \<Rightarrow> Inr (\<lparr>header = hdr, records = rs\<rparr>, s')))"

section \<open>The remote fetcher\<close>

text \<open>
  \<^verbatim>\<open>
  const remoteServerTimeout = 10 * time.Second

  func getRemote(ctx context.Context, path string, ch chan<- remoteData) {
      defer close(ch)
      ctx, cancel := context.WithTimeout(ctx, remoteServerTimeout)
      defer cancel()
      select {
      case <-ctx.Done():
          fmt.Fprintf(os.Stderr, "Cannot get data: %v\n", ctx.Err())
          os.Exit(1)
      default:
          repContent, _, resp, err := cl.Repositories.GetContents(ctx, "CSSEGISandData",
              "COVID-19", fmt.Sprintf("csse_covid_19_data/csse_covid_19_time_series/%s", path), nil)
          if err != nil {
              if _, ok := err.(*github.RateLimitError); ok {
                  fmt.Fprintf(os.Stderr, "hit rate limit: %v\n", err)
                  os.Exit(1)
              }
              fmt.Fprintf(os.Stderr, "cannot get data: %v\n", err)
              os.Exit(1)
          }
          ch <- remoteData{repContent, resp}
      }
  }
  \<close>
  \<open>main\<close> starts one \<open>go getRemote(context.Background(), paths[i], ci[i])\<close> per
  file: the parent context has no deadline and is never cancelled, so the deadline of
  \<open>ctx\<close> is that of \<open>WithTimeout\<close> and its error, once it is done, is
  \<open>context.DeadlineExceeded\<close>.

  A \<open>time.Duration\<close> counts nanoseconds. The model takes the time \<open>now\<close> of the call,
  whether the new context is already done when the \<open>select\<close> runs, and the library call
  \<open>GetContents\<close> as a function \<open>get\<close> of the deadline of the context it is given and of
  the path; its answer is the content or an error. Of an error the code only asks
  whether it is a \<open>*github.RateLimitError\<close>. The result is what the function does last
  (the send on \<open>ch\<close>, or the message printed and the exit status) together with the
  number of calls of \<open>GetContents\<close> it made.
\<close>

definition second :: int where
  "second = 1000000000"

definition remoteServerTimeout :: int where
  "remoteServerTimeout = 10 * second"

datatype fetch_error = RateLimitError | DeadlineExceeded | OtherError

datatype message =
    CannotGetDataDone   \<comment> \<open>\<open>"Cannot get data: %v"\<close>, \<open>ctx.Err()\<close>\<close>
  | HitRateLimit        \<comment> \<open>\<open>"hit rate limit: %v"\<close>\<close>
  | CannotGetData       \<comment> \<open>\<open>"cannot get data: %v"\<close>\<close>

datatype 'c fetch = Sent 'c | Exit message fetch_error nat

definition getRemote ::
  "int \<Rightarrow> bool \<Rightarrow> (int \<Rightarrow> string \<Rightarrow> fetch_error + 'c) \<Rightarrow> string \<Rightarrow> 'c fetch \<times> nat" where
  "getRemote now done get path =
     (let deadline = now + remoteServerTimeout in
      if done then (Exit CannotGetDataDone DeadlineExceeded 1, 0)
      else (case get deadline (''csse_covid_19_data/csse_covid_19_time_series/'' @ path) of
              Inl err \<Rightarrow>
                if err = RateLimitError then (Exit HitRateLimit err 1, 1)
                else (Exit CannotGetData err 1, 1)
            | Inr content \<Rightarrow> (Sent content, 1)))"

text \<open>The branch that reported the failure, if the fetch failed.\<close>

definition condition :: "'c fetch \<Rightarrow> message option" where
  "condition f = (case f of Sent _ \<Rightarrow> None | Exit m _ _ \<Rightarrow> Some m)"

text \<open>
  Two library calls for concrete runs: one that has the content after \<open>t\<close> nanoseconds
  and gives up with the context's error when the deadline comes first, and one that fails
  with a given error.
\<close>

definition answers_after ::
  "int \<Rightarrow> int \<Rightarrow> 'c \<Rightarrow> int \<Rightarrow> string \<Rightarrow> fetch_error + 'c" where
  "answers_after now t content deadline path =
     (if now + t \<le> deadline then Inr content else Inl DeadlineExceeded)"

definition fails_with :: "fetch_error \<Rightarrow> int \<Rightarrow> string \<Rightarrow> fetch_error + string" where
  "fails_with err deadline path = Inl err"

section \<open>Vocabulary of the statements\<close>

text \<open>
  These three functions are not part of the program; the statements about \<open>reduce\<close>
  are written with them. \<open>addrs\<close> lists the case arrays a sequence of records refers
  to (no address twice: no two records share an array, as in every decoded dataset).
  \<open>group_sum h L c xs\<close> is the element-wise sum, over \<open>L\<close> days, of the case
  sequences of the records of \<open>xs\<close> whose country name is exactly \<open>c\<close>. \<open>heads c xs\<close>
  are the records of \<open>xs\<close> whose country name differs from that of the record before
  them (from \<open>c\<close> for the first).
\<close>

fun addrs :: "region list \<Rightarrow> addr list" where
  "addrs [] = []"
| "addrs (x # xs) = (case cases x of None \<Rightarrow> addrs xs | Some a \<Rightarrow> a # addrs xs)"

definition group_sum :: "heap \<Rightarrow> nat \<Rightarrow> string \<Rightarrow> region list \<Rightarrow> goint list" where
  "group_sum h L c xs =
     map (\<lambda>k. sum_list (map (\<lambda>x. cases_of h x ! k) (filter (\<lambda>x. country x = c) xs))) [0..<L]"

fun heads :: "string \<Rightarrow> region list \<Rightarrow> region list" where
  "heads c [] = []"
| "heads c (x # xs) = (if country x \<noteq> c then x # heads (country x) xs else heads c xs)"

section \<open>Concrete instances\<close>

text \<open>
  Instances of the library parameters for concrete runs: \<open>strconv.Atoi\<close> on unsigned
  decimal numerals, and \<open>strconv.ParseFloat\<close> on the two spellings of zero.
\<close>

fun parse_digits :: "string \<Rightarrow> nat \<Rightarrow> nat option" where
  "parse_digits [] acc = Some acc"
| "parse_digits (ch # cs) acc =
     (if 48 \<le> (of_char ch :: nat) \<and> (of_char ch :: nat) \<le> 57
      then parse_digits cs (10 * acc + (of_char ch - 48)) else None)"

definition atoi_digits :: "string \<Rightarrow> goint option" where
  "atoi_digits s =
     (if s = [] then None
      else case parse_digits s 0 of
             None \<Rightarrow> None
           | Some v \<Rightarrow> if v < 2 ^ 63 then Some (of_nat v) else None)"

definition atof_zero :: "string \<Rightarrow> float32 option" where
  "atof_zero s = (if s = ''0'' \<or> s = ''0.0'' then Some 0 else None)"

definition empty_heap :: heap where
  "empty_heap = (\<lambda>_. [])"

text \<open>A table of one header row and two data rows.\<close>

definition table0 :: "string list list" where
  "table0 = [[''Province/State'', ''Country/Region'', ''Lat'', ''Long'', ''1/22/20'', ''1/23/20''],
             ['''', ''Chad'', ''0.0'', ''0.0'', ''3'', ''5''],
             [''Hubei'', ''China'', ''0.0'', ''0.0'', ''444'', ''445'']]"

text \<open>
  The scenario of the specification: two regions of Country A with case sequences
  \<open>[1,2,3]\<close> and \<open>[4,5,6]\<close>, one region of Country B with \<open>[0,0,1]\<close>.
\<close>

definition north_A :: region where
  "north_A = \<lparr>province = ''North'', country = ''Country A'', lat = 0, long = 0, cases = Some 0\<rparr>"

definition south_A :: region where
  "south_A = \<lparr>province = ''South'', country = ''Country A'', lat = 0, long = 0, cases = Some 1\<rparr>"

definition only_B :: region where
  "only_B = \<lparr>province = [], country = ''Country B'', lat = 0, long = 0, cases = Some 2\<rparr>"

definition heap_AB :: heap where
  "heap_AB = empty_heap(0 := [1, 2, 3], 1 := [4, 5, 6], 2 := [0, 0, 1])"

definition data_AB :: data where
  "data_AB = \<lparr>header = [''Province/State'', ''Country/Region'', ''Lat'', ''Long'', ''d1'', ''d2'', ''d3''],
              records = [north_A, south_A, only_B]\<rparr>"

text \<open>The same records with Country B first.\<close>

definition data_BA :: data where
  "data_BA = \<lparr>header = header data_AB, records = [only_B, north_A]\<rparr>"

text \<open>
  Records for runs with an empty country name: a row whose second field is empty is
  accepted by the decoder like any other.
\<close>

definition nameless :: region where
  "nameless = \<lparr>province = ''Somewhere'', country = [], lat = 0, long = 0, cases = Some 0\<rparr>"

definition chad :: region where
  "chad = \<lparr>province = [], country = ''Chad'', lat = 0, long = 0, cases = Some 1\<rparr>"

definition us :: region where
  "us = \<lparr>province = [], country = ''US'', lat = 0, long = 0, cases = Some 1\<rparr>"

definition heap_13 :: heap where
  "heap_13 = empty_heap(0 := [1], 1 := [3])"

definition table_nameless :: "string list list" where
  "table_nameless = [[''Province/State'', ''Country/Region'', ''Lat'', ''Long'', ''1/22/20''],
                     [''Somewhere'', [], ''0'', ''0'', ''1'']]"

text \<open>
  The two records decoded from \<open>table0\<close>, and two records of a table without date
  columns.
\<close>

definition chad2 :: region where
  "chad2 = \<lparr>province = [], country = ''Chad'', lat = 0, long = 0, cases = Some 0\<rparr>"

definition hubei :: region where
  "hubei = \<lparr>province = ''Hubei'', country = ''China'', lat = 0, long = 0, cases = Some 1\<rparr>"

definition heap_CC :: heap where
  "heap_CC = empty_heap(0 := [3, 5], 1 := [444, 445])"

definition data_CC :: data where
  "data_CC = \<lparr>header = hd table0, records = [chad2, hubei]\<rparr>"

definition data_nodates :: data where
  "data_nodates = \<lparr>header = [''Province/State'', ''Country/Region'', ''Lat'', ''Long''],
                   records = [chad\<lparr>cases := None\<rparr>, us\<lparr>cases := None\<rparr>]\<rparr>"

section \<open>The sorting contract\<close>

lemma sift_mset: "sift cl ls x ms post = Inr zs \<Longrightarrow> mset zs = mset ls + {#x#} + mset ms"
  by (induction ls arbitrary: ms) (auto split: sum.splits if_splits)

lemma insertion_mset: "insertion cl pre post = Inr ys \<Longrightarrow> mset ys = mset pre + mset post"
proof (induction post arbitrary: pre)
  case Nil
  then show ?case by simp
next
  case (Cons x post)
  then obtain pre' where s: "sift cl (rev pre) x [] post = Inr pre'"
    and i: "insertion cl pre' post = Inr ys"
    by (auto split: sum.splits)
  show ?case using Cons.IH [OF i] sift_mset [OF s] by simp
qed

lemma sift_error:
  "sift cl ls x ms post = Inl e \<Longrightarrow>
     \<exists>ys i j. mset ys = mset ls + {#x#} + mset ms + mset post \<and>
              i < length ys \<and> j < length ys \<and> cl ys i j = Inl e"
proof (induction ls arbitrary: ms)
  case Nil
  then show ?case by simp
next
  case (Cons y ls)
  show ?case
  proof (cases "cl (rev ls @ y # x # ms @ post) (Suc (length ls)) (length ls)")
    case (Inl e')
    then have "e' = e" using Cons.prems by simp
    then have "cl (rev ls @ y # x # ms @ post) (Suc (length ls)) (length ls) = Inl e" using Inl by simp
    moreover have "mset (rev ls @ y # x # ms @ post) = mset (y # ls) + {#x#} + mset ms + mset post"
      by simp
    moreover have "Suc (length ls) < length (rev ls @ y # x # ms @ post)"
      "length ls < length (rev ls @ y # x # ms @ post)" by simp_all
    ultimately show ?thesis by blast
  next
    case (Inr b)
    then have b and "sift cl ls x (y # ms) post = Inl e" using Cons.prems by (auto split: if_splits)
    from Cons.IH [OF this(2)] show ?thesis by (simp add: ac_simps)
  qed
qed

lemma insertion_error:
  "insertion cl pre post = Inl e \<Longrightarrow>
     \<exists>ys i j. mset ys = mset pre + mset post \<and> i < length ys \<and> j < length ys \<and> cl ys i j = Inl e"
proof (induction post arbitrary: pre)
  case Nil
  then show ?case by simp
next
  case (Cons x post)
  show ?case
  proof (cases "sift cl (rev pre) x [] post")
    case (Inl e')
    then have "sift cl (rev pre) x [] post = Inl e" using Cons.prems by simp
    from sift_error [OF this] show ?thesis by (simp add: ac_simps)
  next
    case (Inr pre')
    then have "insertion cl pre' post = Inl e" using Cons.prems by simp
    from Cons.IH [OF this] show ?thesis using sift_mset [OF Inr] by (simp add: ac_simps)
  qed
qed

lemma sift_sorted:
  assumes "strict_weak lt" and "follows cl lt xs"
    and "sift cl ls x ms post = Inr zs"
    and "mset (ls @ x # ms @ post) = mset xs"
    and "sorted_wrt (\<lambda>a b. \<not> lt b a) (rev ls)"
    and "sorted_wrt (\<lambda>a b. \<not> lt b a) (x # ms)"
    and "\<forall>a \<in> set ls. \<forall>b \<in> set ms. \<not> lt b a"
  shows "sorted_wrt (\<lambda>a b. \<not> lt b a) zs"
  using assms(3-7)
proof (induction ls arbitrary: ms)
  case Nil
  then show ?case by simp
next
  case (Cons y ls)
  from assms(1) have asym: "\<And>a b. lt a b \<Longrightarrow> \<not> lt b a"
    and ntr: "\<And>a b c. \<not> lt b a \<Longrightarrow> \<not> lt c b \<Longrightarrow> \<not> lt c a"
    unfolding strict_weak_def by blast+
  let ?arr = "rev ls @ y # x # ms @ post"
  have "mset ?arr = mset xs" using Cons.prems(2) by simp
  moreover have "Suc (length ls) < length ?arr" "length ls < length ?arr" by simp_all
  ultimately have "cl ?arr (Suc (length ls)) (length ls) = Inr (lt (?arr ! Suc (length ls)) (?arr ! length ls))"
    using assms(2) unfolding follows_def by blast
  moreover have "?arr ! length ls = y" by (simp add: nth_append)
  moreover have "?arr ! Suc (length ls) = x" by (simp add: nth_append)
  ultimately have call: "cl ?arr (Suc (length ls)) (length ls) = Inr (lt x y)" by simp
  have sl: "sorted_wrt (\<lambda>a b. \<not> lt b a) (rev ls)" and yl: "\<forall>a \<in> set ls. \<not> lt y a"
    using Cons.prems(3) by (auto simp: sorted_wrt_append)
  show ?case
  proof (cases "lt x y")
    case True
    then have run: "sift cl ls x (y # ms) post = Inr zs" using Cons.prems(1) call by simp
    have "\<not> lt y x" using True by (rule asym)
    then have "sorted_wrt (\<lambda>a b. \<not> lt b a) (x # y # ms)"
      using Cons.prems(4,5) by auto
    moreover have "\<forall>a \<in> set ls. \<forall>b \<in> set (y # ms). \<not> lt b a"
      using yl Cons.prems(5) by auto
    moreover have "mset (ls @ x # (y # ms) @ post) = mset xs"
      using Cons.prems(2) by (simp add: add_mset_commute)
    ultimately show ?thesis using Cons.IH [OF run _ sl] by blast
  next
    case False
    then have zs: "zs = rev ls @ y # x # ms" using Cons.prems(1) call by simp
    have "\<forall>a \<in> set ls. \<not> lt x a" using yl False ntr by blast
    then show ?thesis
      unfolding zs using sl yl False Cons.prems(4,5)
      by (auto simp: sorted_wrt_append)
  qed
qed

lemma insertion_sorted:
  assumes "strict_weak lt" and "follows cl lt xs"
    and "insertion cl pre post = Inr ys"
    and "mset (pre @ post) = mset xs"
    and "sorted_wrt (\<lambda>a b. \<not> lt b a) pre"
  shows "sorted_wrt (\<lambda>a b. \<not> lt b a) ys"
  using assms(3-5)
proof (induction post arbitrary: pre)
  case Nil
  then show ?case by simp
next
  case (Cons x post)
  then obtain pre' where s: "sift cl (rev pre) x [] post = Inr pre'"
    and i: "insertion cl pre' post = Inr ys"
    by (auto split: sum.splits)
  have "sorted_wrt (\<lambda>a b. \<not> lt b a) pre'"
    using Cons.prems(2,3) by (intro sift_sorted [OF assms(1,2) s]) simp_all
  moreover have "mset (pre' @ post) = mset xs"
    using sift_mset [OF s] Cons.prems(2) by simp
  ultimately show ?case using Cons.IH [OF i] by blast
qed

lemma isort_by_spec: "slice_sort_spec isort_by"
  unfolding slice_sort_spec_def
proof (intro conjI allI impI)
  fix cl :: "'a closure" and xs ys
  assume "isort_by cl xs = Inr ys"
  then show "mset ys = mset xs" using insertion_mset [of cl "[]" xs ys] by (simp add: isort_by_def)
next
  fix cl :: "'a closure" and xs e
  assume "isort_by cl xs = Inl e"
  then show "\<exists>ys i j. mset ys = mset xs \<and> i < length ys \<and> j < length ys \<and> cl ys i j = Inl e"
    using insertion_error [of cl "[]" xs e] by (simp add: isort_by_def)
next
  fix cl :: "'a closure" and xs :: "'a list"
  assume "length xs < 2"
  then show "isort_by cl xs = Inr xs"
    by (cases xs; cases "tl xs") (auto simp: isort_by_def)
next
  fix cl :: "'a closure" and lt xs ys
  assume "strict_weak lt" "follows cl lt xs" "isort_by cl xs = Inr ys"
  then show "sorted_wrt (\<lambda>a b. \<not> lt b a) ys"
    using insertion_sorted [of lt cl xs "[]" xs ys] by (simp add: isort_by_def)
qed

lemma sort_follows:
  assumes "slice_sort_spec srt" and "strict_weak lt" and "follows cl lt xs"
  shows "\<exists>ys. srt cl xs = Inr ys \<and> mset ys = mset xs \<and> sorted_wrt (\<lambda>a b. \<not> lt b a) ys"
proof (cases "srt cl xs")
  case (Inl e)
  then obtain ys i j where "mset ys = mset xs" "i < length ys" "j < length ys" "cl ys i j = Inl e"
    using assms(1) unfolding slice_sort_spec_def by blast
  then show ?thesis using assms(3) unfolding follows_def by force
next
  case (Inr ys)
  then show ?thesis using assms unfolding slice_sort_spec_def by blast
qed

lemma strict_weak_latest: "strict_weak (latest_greater h k)"
  unfolding strict_weak_def latest_greater_def by auto

lemma strict_weak_country: "strict_weak country_less"
  unfolding strict_weak_def country_less_def by auto

lemma follows_country: "follows less_country country_less xs"
  unfolding follows_def less_country_def country_less_def by simp

lemma less_latest_error: "less_latest h xs i j = Inl e \<Longrightarrow> e = IndexOutOfRange"
  by (auto simp: less_latest_def Let_def split: list.splits if_splits)

lemma follows_latest:
  assumes "\<forall>x \<in> set xs. length (cases_of h x) = L" and "0 < L"
  shows "follows (less_latest h) (latest_greater h (L - 1)) xs"
  unfolding follows_def
proof (intro allI impI)
  fix ys i j
  assume m: "mset ys = mset xs" and i: "i < length ys" and j: "j < length ys"
  have len: "\<forall>x \<in> set ys. length (cases_of h x) = L"
    using assms(1) mset_eq_setD [OF m] by simp
  have "ys ! i \<in> set ys" "ys ! j \<in> set ys" using i j by simp_all
  then have ij: "length (cases_of h (ys ! i)) = L" "length (cases_of h (ys ! j)) = L"
    using len by blast+
  obtain y0 rest where ys: "ys = y0 # rest" using i by (cases ys) auto
  have "length (cases_of h y0) = L" using len ys by simp
  with ij show "less_latest h ys i j = Inr (latest_greater h (L - 1) (ys ! i) (ys ! j))"
    using assms(2) i j ys by (simp add: less_latest_def latest_greater_def Let_def)
qed

section \<open>\<open>sum\<close> and its callers\<close>

lemma sum_loop_Inr:
  "sum_loop k rs h s = Inr v \<longleftrightarrow>
     (\<forall>r \<in> set rs. 0 \<le> k \<and> k < int (length (cases_of h r))) \<and>
     v = s + sum_list (map (\<lambda>r. cases_of h r ! nat k) rs)"
  by (induction rs arbitrary: s) (auto simp: add.assoc)

lemma sum_loop_error: "sum_loop k rs h s = Inl e \<Longrightarrow> e = IndexOutOfRange"
  by (induction rs arbitrary: s) (auto split: if_splits)

text \<open>
  C10. For a negative offset \<open>c\<close>, \<open>sum\<close> returns exactly when the dataset has a first
  record and the index \<open>len(d.records[0].cases) + c\<close> exists in the case sequence of
  every record; the value is then the sum of that column. On a dataset without records
  the read of \<open>d.records[0]\<close> is out of range, and so is \<open>printCases\<close>, which calls
  \<open>sum(-1)\<close> and \<open>sum(-2)\<close>.
\<close>

theorem sum_negative_offset:
  assumes "c < 0"
  shows "(sum_cases d c h = Inr v \<longleftrightarrow>
            records d \<noteq> [] \<and>
            (\<forall>r \<in> set (records d).
                0 \<le> int (length (cases_of h (hd (records d)))) + c \<and>
                int (length (cases_of h (hd (records d)))) + c < int (length (cases_of h r))) \<and>
            v = sum_list (map (\<lambda>r. cases_of h r ! nat (int (length (cases_of h (hd (records d)))) + c))
                           (records d))) \<and>
         (records d = [] \<longrightarrow>
            sum_cases d c h = Inl IndexOutOfRange \<and> printCases d h = Inl IndexOutOfRange)"
proof (cases "records d")
  case Nil
  then show ?thesis using assms by (simp add: sum_cases_def printCases_def)
next
  case (Cons r0 rest)
  then show ?thesis using assms
    by (simp add: sum_cases_def sum_loop_Inr del: sum_loop.simps)
qed

theorem sum_negative_offset_witness:
  "(- 1 :: int) < 0 \<and> sum_cases data_AB (- 1) heap_AB = Inr 10 \<and>
   sum_cases \<lparr>header = [], records = []\<rparr> (- 1) heap_AB = Inl IndexOutOfRange"
proof -
  have "sum_cases data_AB (- 1) heap_AB = Inr 10"
    using sum_negative_offset [of "- 1" data_AB heap_AB 10]
    by (simp add: data_AB_def north_A_def south_A_def only_B_def heap_AB_def cases_of_def)
  moreover have "sum_cases \<lparr>header = [], records = []\<rparr> (- 1) heap_AB = Inl IndexOutOfRange"
    using sum_negative_offset [of "- 1" "\<lparr>header = [], records = []\<rparr>" heap_AB 0] by simp
  ultimately show ?thesis by simp
qed

lemma printCases_scenario: "printCases data_AB heap_AB = Inr (10, 3)"
  by (simp add: printCases_def sum_cases_def data_AB_def north_A_def south_A_def only_B_def
      heap_AB_def cases_of_def)

section \<open>The decoder\<close>

lemma parse_cases_length:
  "parse_cases atoi row js = Inr vs \<Longrightarrow> length vs = length js \<and> (\<forall>j \<in> set js. j < length row)"
  by (induction js arbitrary: vs) (auto split: if_splits option.splits sum.splits)

lemma decode_row_Inr:
  assumes "decode_row atoi atof w row (h, n) = Inr (r, h', n')"
  shows "4 \<le> length row \<and> length (cases_of h' r) = w - 4 \<and> n \<le> n' \<and>
         (\<forall>a < n. h' a = h a) \<and> (\<forall>a. cases r = Some a \<longrightarrow> n \<le> a \<and> a < n')"
  using assms
  by (auto simp: decode_row_def cases_of_def split: sum.splits option.splits if_splits
           dest!: parse_cases_length)

lemma decode_rows_Inr:
  assumes "decode_rows atoi atof w rows (h, n) = Inr (rs, h', n')"
  shows "n \<le> n' \<and> (\<forall>a < n. h' a = h a) \<and> length rs = length rows \<and>
         (\<forall>row \<in> set rows. 4 \<le> length row) \<and>
         (\<forall>r \<in> set rs. length (cases_of h' r) = w - 4 \<and>
                         (\<forall>a. cases r = Some a \<longrightarrow> n \<le> a \<and> a < n'))"
  using assms
proof (induction rows arbitrary: h n rs)
  case Nil
  then show ?case by simp
next
  case (Cons row rows)
  from Cons.prems obtain r h1 n1 rs' where
    row: "decode_row atoi atof w row (h, n) = Inr (r, h1, n1)" and
    rest: "decode_rows atoi atof w rows (h1, n1) = Inr (rs', h', n')" and
    rs: "rs = r # rs'"
    by (auto split: sum.splits)
  note R = decode_row_Inr [OF row]
  note IH = Cons.IH [OF rest]
  have "length (cases_of h' r) = w - 4"
  proof (cases "cases r")
    case None
    then show ?thesis using R by (simp add: cases_of_def)
  next
    case (Some a)
    then have "a < n1" using R by simp
    then have "h' a = h1 a" using IH by simp
    then show ?thesis using R Some by (simp add: cases_of_def)
  qed
  then show ?case using R IH rs by fastforce
qed

text \<open>
  C5. \<open>csv.Reader.ReadAll\<close> (with \<open>FieldsPerRecord\<close> left at 0) returns only tables
  whose rows all have as many fields as the first. On such a table, whenever the decoder
  returns a dataset, its header is the first row and every record has one case count per
  header column beyond the first four.
\<close>

theorem decode_header_length:
  assumes "decode atoi atof rr (h, n) = Inr (d, h', n')"
    and "\<forall>row \<in> set rr. length row = length (hd rr)"
  shows "header d = hd rr \<and>
         (\<forall>r \<in> set (records d). length (header d) = 4 + length (cases_of h' r))"
proof -
  from assms(1) obtain hdr rows rs where
    rr: "rr = hdr # rows" and
    rows: "decode_rows atoi atof (length hdr) rows (h, n) = Inr (rs, h', n')" and
    d: "d = \<lparr>header = hdr, records = rs\<rparr>"
    by (auto simp: decode_def split: list.splits sum.splits)
  note R = decode_rows_Inr [OF rows]
  show ?thesis
  proof (cases rows)
    case Nil
    then show ?thesis using R d rr by simp
  next
    case (Cons row rows')
    then have "4 \<le> length row" using R by simp
    moreover have "length row = length hdr" using assms(2) rr Cons by simp
    ultimately have "4 \<le> length hdr" by simp
    then show ?thesis using R d rr by simp
  qed
qed

lemma atoi_digits_table0:
  "atoi_digits ''3'' = Some 3" "atoi_digits ''5'' = Some 5"
  "atoi_digits ''444'' = Some 444" "atoi_digits ''445'' = Some 445"
  by (simp_all add: atoi_digits_def)

lemma decode_table0:
  "decode atoi_digits atof_zero table0 (empty_heap, 0) =
     Inr (\<lparr>header = hd table0,
           records = [\<lparr>province = [], country = ''Chad'', lat = 0, long = 0, cases = Some 0\<rparr>,
                      \<lparr>province = ''Hubei'', country = ''China'', lat = 0, long = 0,
                         cases = Some 1\<rparr>]\<rparr>,
          empty_heap(0 := [3, 5], 1 := [444, 445]), 2)"
  by (simp add: decode_def decode_row_def table0_def atoi_digits_table0 atof_zero_def)

theorem decode_header_length_witness:
  "map length table0 = [6, 6, 6] \<and>
   length (hd table0) = 6 \<and>
   map (\<lambda>r. length (cases_of (empty_heap(0 := [3, 5], 1 := [444, 445])) r))
       [\<lparr>province = [], country = ''Chad'', lat = 0, long = 0, cases = Some 0\<rparr>,
        \<lparr>province = ''Hubei'', country = ''China'', lat = 0, long = 0, cases = Some 1\<rparr>] = [2, 2]"
proof -
  have u: "\<forall>row \<in> set table0. length row = length (hd table0)"
    by (simp add: table0_def)
  have "map length table0 = [6, 6, 6]" "length (hd table0) = 6"
    by (simp_all add: table0_def)
  then show ?thesis using decode_header_length [OF decode_table0 u] by simp
qed

text \<open>
  A decoded dataset meets the two conditions on arrays used below: no two records share
  a case array, and all case sequences have one length.
\<close>

lemma decode_row_addrs:
  assumes "decode_row atoi atof w row (h, n) = Inr (r, h', n')"
  shows "(cases r = None \<and> n' = n) \<or> (cases r = Some n \<and> n' = Suc n)"
  using assms
  by (auto simp: decode_row_def split: sum.splits option.splits if_splits)

lemma decode_rows_addrs:
  assumes "decode_rows atoi atof w rows (h, n) = Inr (rs, h', n')"
  shows "distinct (addrs rs) \<and> (\<forall>a \<in> set (addrs rs). n \<le> a \<and> a < n')"
  using assms
proof (induction rows arbitrary: h n rs)
  case Nil
  then show ?case by simp
next
  case (Cons row rows)
  from Cons.prems obtain r h1 n1 rs' where
    row: "decode_row atoi atof w row (h, n) = Inr (r, h1, n1)" and
    rest: "decode_rows atoi atof w rows (h1, n1) = Inr (rs', h', n')" and
    rs: "rs = r # rs'"
    by (auto split: sum.splits)
  note A = decode_row_addrs [OF row]
  note IH = Cons.IH [OF rest]
  have "n1 \<le> n'" using decode_rows_Inr [OF rest] by simp
  then show ?case using A IH rs by (auto split: option.splits)
qed

lemma decode_own_arrays:
  assumes "decode atoi atof rr (h, n) = Inr (d, h', n')"
  shows "distinct (addrs (records d)) \<and>
         (\<forall>x \<in> set (records d). length (cases_of h' x) = length (header d) - 4)"
proof -
  from assms obtain hdr rows rs where
    rows: "decode_rows atoi atof (length hdr) rows (h, n) = Inr (rs, h', n')" and
    d: "d = \<lparr>header = hdr, records = rs\<rparr>"
    by (auto simp: decode_def split: list.splits sum.splits)
  show ?thesis using decode_rows_addrs [OF rows] decode_rows_Inr [OF rows] d by simp
qed

text \<open>A row with an empty country field is decoded like any other.\<close>

lemma decode_table_nameless:
  "decode atoi_digits atof_zero table_nameless (empty_heap, 0) =
     Inr (\<lparr>header = hd table_nameless, records = [nameless]\<rparr>, empty_heap(0 := [1]), 1)"
  by (simp add: decode_def decode_row_def table_nameless_def nameless_def atoi_digits_def
      atof_zero_def)

section \<open>The top-n loop\<close>

lemma top_rows_Inr:
  "top_rows js d h = Inr out \<longleftrightarrow>
     (\<forall>i \<in> set js. i < length (records d) \<and> cases_of h (records d ! i) \<noteq> []) \<and>
     out = map (\<lambda>i. (country (records d ! i), last (cases_of h (records d ! i)))) js"
proof (induction js arbitrary: out)
  case Nil
  then show ?case by auto
next
  case (Cons i js)
  show ?case
  proof (cases "top_rows js d h")
    case (Inl e)
    with Cons.IH [of "map (\<lambda>i. (country (records d ! i), last (cases_of h (records d ! i)))) js"]
    show ?thesis by auto
  next
    case (Inr out')
    with Cons.IH [of out'] show ?thesis by auto
  qed
qed

lemma top_rows_error: "top_rows js d h = Inl e \<Longrightarrow> e = IndexOutOfRange"
  by (induction js) (auto split: sum.splits if_splits)

lemma top_names_Inr:
  "top_names js d = Inr out \<longleftrightarrow>
     (\<forall>i \<in> set js. i < length (records d)) \<and> out = map (\<lambda>i. country (records d ! i)) js"
proof (induction js arbitrary: out)
  case Nil
  then show ?case by auto
next
  case (Cons i js)
  show ?case
  proof (cases "top_names js d")
    case (Inl e)
    with Cons.IH [of "map (\<lambda>i. country (records d ! i)) js"] show ?thesis by auto
  next
    case (Inr out')
    with Cons.IH [of out'] show ?thesis by auto
  qed
qed

lemma top_names_error: "top_names js d = Inl e \<Longrightarrow> e = IndexOutOfRange"
  by (induction js) (auto split: sum.splits if_splits)

lemma top_rows_short:
  assumes "length (records d) < n"
  shows "top_rows [0..<n] d h = Inl IndexOutOfRange"
proof (cases "top_rows [0..<n] d h")
  case (Inl e)
  then show ?thesis using top_rows_error by blast
next
  case (Inr out)
  then have "\<forall>i \<in> set [0..<n]. i < length (records d)" unfolding top_rows_Inr by blast
  with assms show ?thesis by auto
qed

lemma sort_latest_mset:
  assumes "slice_sort_spec srt" "sort_latest srt d h = Inr d'"
  shows "mset (records d') = mset (records d)"
proof -
  from assms(2) obtain ys where "srt (less_latest h) (records d) = Inr ys" "records d' = ys"
    by (auto simp: sort_latest_def split: sum.splits)
  then show ?thesis using assms(1) unfolding slice_sort_spec_def by blast
qed

lemma sort_latest_length:
  assumes "slice_sort_spec srt" "sort_latest srt d h = Inr d'"
  shows "length (records d') = length (records d)"
  using sort_latest_mset [OF assms] by (rule mset_eq_length)

lemma sort_latest_error:
  assumes "slice_sort_spec srt" and "sort_latest srt d h = Inl e"
  shows "e = IndexOutOfRange"
proof -
  from assms(2) have "srt (less_latest h) (records d) = Inl e"
    by (auto simp: sort_latest_def split: sum.splits)
  then obtain ys i j where "less_latest h ys i j = Inl e"
    using assms(1) unfolding slice_sort_spec_def by blast
  then show ?thesis by (rule less_latest_error)
qed

lemma top_names_short:
  assumes "length (records d) < n"
  shows "top_names [0..<n] d = Inl IndexOutOfRange"
proof (cases "top_names [0..<n] d")
  case (Inl e)
  then show ?thesis using top_names_error by blast
next
  case (Inr out)
  then have "\<forall>i \<in> set [0..<n]. i < length (records d)" unfolding top_names_Inr by blast
  with assms show ?thesis by auto
qed

section \<open>\<open>reduce\<close>\<close>

subsection \<open>What the loop keeps\<close>

lemma add_at_length: "add_at rs r j h = Inr h' \<Longrightarrow> length (h' a) = length (h a)"
  by (auto simp: add_at_def split: if_splits option.splits)

lemma add_loop_length: "add_loop rs r js h = Inr h' \<Longrightarrow> length (h' a) = length (h a)"
proof (induction js arbitrary: h)
  case Nil
  then show ?case by simp
next
  case (Cons j js)
  then show ?case by (auto split: sum.splits dest: add_at_length)
qed

lemma reduce_loop_length:
  "reduce_loop xs c rs h = Inr (rs', h') \<Longrightarrow> length (h' a) = length (h a)"
proof (induction xs arbitrary: c rs h)
  case Nil
  then show ?case by simp
next
  case (Cons x xs)
  then show ?case by (auto split: if_splits sum.splits dest: add_loop_length)
qed

lemma reduce_loop_set:
  "reduce_loop xs c rs h = Inr (rs', h') \<Longrightarrow> set rs' \<subseteq> set rs \<union> set xs"
proof (induction xs arbitrary: c rs h)
  case Nil
  then show ?case by simp
next
  case (Cons x xs)
  show ?case
  proof (cases "country x \<noteq> c")
    case True
    with Cons.prems have "reduce_loop xs (country x) (rs @ [x]) h = Inr (rs', h')" by simp
    from Cons.IH [OF this] show ?thesis by auto
  next
    case False
    with Cons.prems obtain h1 where "reduce_loop xs c rs h1 = Inr (rs', h')"
      by (auto split: sum.splits)
    from Cons.IH [OF this] show ?thesis by auto
  qed
qed

lemma reduce_loop_countries:
  assumes "reduce_loop xs c rs h = Inr (rs', h')"
    and "sorted (map country xs)"
    and "\<forall>x \<in> set xs. c \<le> country x"
    and "sorted_wrt (<) (map country rs)"
    and "\<forall>r \<in> set rs. country r \<le> c"
    and "\<forall>r \<in> set rs. country r \<noteq> []"
  shows "sorted_wrt (<) (map country rs') \<and> (\<forall>r \<in> set rs'. country r \<noteq> [])"
  using assms
proof (induction xs arbitrary: c rs h)
  case Nil
  then show ?case by simp
next
  case (Cons x xs)
  show ?case
  proof (cases "country x \<noteq> c")
    case True
    with Cons.prems(1) have run: "reduce_loop xs (country x) (rs @ [x]) h = Inr (rs', h')" by simp
    from True Cons.prems(3) have lt: "c < country x" by auto
    then have ne: "country x \<noteq> []" by auto
    have "sorted_wrt (<) (map country (rs @ [x]))"
      using Cons.prems(4,5) lt by (auto simp: sorted_wrt_append)
    moreover have "\<forall>r \<in> set (rs @ [x]). country r \<le> country x"
      using Cons.prems(5) lt by auto
    moreover have "\<forall>r \<in> set (rs @ [x]). country r \<noteq> []"
      using Cons.prems(6) ne by auto
    moreover have "sorted (map country xs)" "\<forall>y \<in> set xs. country x \<le> country y"
      using Cons.prems(2) by auto
    ultimately show ?thesis using Cons.IH [OF run] by blast
  next
    case False
    with Cons.prems(1) obtain h1 where run: "reduce_loop xs c rs h1 = Inr (rs', h')"
      by (auto split: sum.splits)
    show ?thesis using Cons.IH [OF run] Cons.prems(2-6) by auto
  qed
qed

lemma reduce_loop_no_merge:
  assumes "sorted_wrt (<) (map country xs)" and "\<forall>x \<in> set xs. c < country x"
  shows "reduce_loop xs c rs h = Inr (rs @ xs, h)"
  using assms by (induction xs arbitrary: c rs) auto

lemma sorted_perm_unique:
  fixes f :: "'a \<Rightarrow> 'k::linorder"
  assumes "mset ys = mset xs" and "sorted (map f ys)" and "sorted_wrt (<) (map f xs)"
  shows "ys = xs"
proof -
  have sx: "sorted (map f xs)" and dx: "distinct (map f xs)"
    using assms(3) by (simp_all add: strict_sorted_iff)
  have "mset (map f ys) = mset (map f xs)" using assms(1) by simp
  then have "sort (map f xs) = map f ys" using assms(2) by (rule properties_for_sort)
  then have keys: "map f ys = map f xs" using sx by (simp add: sorted_sort_id)
  have len: "length ys = length xs" using assms(1) by (rule mset_eq_length)
  have "ys ! i = xs ! i" if i: "i < length xs" for i
  proof -
    have "ys ! i \<in> set xs" using i len assms(1) by (metis nth_mem mset_eq_setD)
    then obtain j where j: "j < length xs" "xs ! j = ys ! i" by (auto simp: in_set_conv_nth)
    have "f (xs ! j) = f (xs ! i)"
      using keys i len j by (metis nth_map)
    then have "map f xs ! j = map f xs ! i" using i j(1) by simp
    moreover have "j < length (map f xs)" "i < length (map f xs)" using i j(1) by simp_all
    ultimately have "j = i" using dx nth_eq_iff_index_eq by blast
    then show ?thesis using j by simp
  qed
  then show ?thesis using len by (simp add: list_eq_iff_nth_eq)
qed

lemma sortCountry_returns:
  assumes "slice_sort_spec srt"
  shows "\<exists>d'. sortCountry srt d = Inr d'"
  using sort_follows [OF assms strict_weak_country follows_country, of "records d"]
  by (auto simp: sortCountry_def)

lemma sortCountry_sorted:
  assumes "slice_sort_spec srt" and "sortCountry srt d = Inr d'"
  shows "mset (records d') = mset (records d)"
    and "sorted (map country (records d'))"
    and "header d' = header d"
    and "d' = d\<lparr>records := records d'\<rparr>"
proof -
  from sort_follows [OF assms(1) strict_weak_country follows_country, of "records d"]
  obtain ys where ys: "srt less_country (records d) = Inr ys"
    and m: "mset ys = mset (records d)"
    and s: "sorted_wrt (\<lambda>a b. \<not> country_less b a) ys" by blast
  have d': "d' = d\<lparr>records := ys\<rparr>" using assms(2) ys by (simp add: sortCountry_def)
  show "mset (records d') = mset (records d)" using m by (simp add: d')
  show "header d' = header d" by (simp add: d')
  show "d' = d\<lparr>records := records d'\<rparr>" by (simp add: d')
  have "sorted_wrt (\<lambda>a b. country a \<le> country b) ys"
    using s by (simp add: country_less_def not_less)
  then show "sorted (map country (records d'))" by (simp add: d' sorted_map)
qed

lemma reduce_Inr:
  assumes "reduce srt d h = Inr (d', r, h')"
  shows "sortCountry srt d = Inr d' \<and> header r = header d \<and>
         reduce_loop (records d') [] [] h = Inr (records r, h')"
  using assms by (auto simp: reduce_def Let_def split: sum.splits)

lemma reduce_result_countries:
  assumes "slice_sort_spec srt" and "reduce srt d h = Inr (d', r, h')"
  shows "sorted_wrt (<) (map country (records r)) \<and> (\<forall>x \<in> set (records r). country x \<noteq> [])"
proof -
  note R = reduce_Inr [OF assms(2)]
  from R have sc: "sortCountry srt d = Inr d'"
    and run: "reduce_loop (records d') [] [] h = Inr (records r, h')" by simp_all
  show ?thesis
    by (rule reduce_loop_countries [OF run sortCountry_sorted(2) [OF assms(1) sc]]) simp_all
qed

lemma reduce_cases_length:
  assumes "slice_sort_spec srt" and "reduce srt d h = Inr (d1, r, h1)"
    and "\<forall>x \<in> set (records d). length (cases_of h x) = L"
  shows "\<forall>x \<in> set (records r). length (cases_of h1 x) = L"
proof
  fix x assume x: "x \<in> set (records r)"
  note R = reduce_Inr [OF assms(2)]
  have "set (records r) \<subseteq> set (records d1)"
    using R reduce_loop_set by fastforce
  moreover have "sortCountry srt d = Inr d1" using R by simp
  then have "set (records d1) = set (records d)"
    using sortCountry_sorted(1) [OF assms(1)] mset_eq_setD by blast
  ultimately have "x \<in> set (records d)" using x by blast
  then have "length (cases_of h x) = L" using assms(3) by blast
  moreover have "length (cases_of h1 x) = length (cases_of h x)"
    using R reduce_loop_length by (auto simp: cases_of_def split: option.splits)
  ultimately show "length (cases_of h1 x) = L" by simp
qed

subsection \<open>The inner loop\<close>

lemma add_loop_nth:
  assumes "rs \<noteq> []" "cases (last rs) = Some a" "cases r = Some b" "a \<noteq> b"
    and "distinct js" "\<forall>j \<in> set js. j < length (h a)"
  shows "\<exists>h'. add_loop rs r js h = Inr h' \<and> (\<forall>a'. a' \<noteq> a \<longrightarrow> h' a' = h a') \<and>
           length (h' a) = length (h a) \<and>
           (\<forall>k < length (h a). h' a ! k = (if k \<in> set js then h a ! k + h b ! k else h a ! k))"
  using assms(5,6)
proof (induction js arbitrary: h)
  case Nil
  then show ?case by simp
next
  case (Cons j js)
  define h1 where "h1 = h(a := (h a)[j := h a ! j + h b ! j])"
  have step: "add_at rs r j h = Inr h1"
    using assms(1-3) Cons.prems by (simp add: add_at_def cases_of_def h1_def)
  have "distinct js" "\<forall>i \<in> set js. i < length (h1 a)"
    using Cons.prems by (simp_all add: h1_def)
  from Cons.IH [of h1, OF this] obtain h' where
    run: "add_loop rs r js h1 = Inr h'" and
    fr: "\<forall>a'. a' \<noteq> a \<longrightarrow> h' a' = h1 a'" and
    len: "length (h' a) = length (h1 a)" and
    val: "\<forall>k < length (h1 a). h' a ! k = (if k \<in> set js then h1 a ! k + h1 b ! k else h1 a ! k)"
    by blast
  have b: "h1 b = h b" using assms(4) by (simp add: h1_def)
  have "add_loop rs r (j # js) h = Inr h'" using step run by simp
  moreover have "\<forall>a'. a' \<noteq> a \<longrightarrow> h' a' = h a'" using fr by (simp add: h1_def)
  moreover have "length (h' a) = length (h a)" using len by (simp add: h1_def)
  moreover have "\<forall>k < length (h a). h' a ! k = (if k \<in> set (j # js) then h a ! k + h b ! k else h a ! k)"
  proof (intro allI impI)
    fix k assume k: "k < length (h a)"
    then have "h' a ! k = (if k \<in> set js then h1 a ! k + h1 b ! k else h1 a ! k)"
      using val by (simp add: h1_def)
    moreover have "h1 a ! k = (if k = j then h a ! j + h b ! j else h a ! k)"
      using k by (simp add: h1_def nth_list_update)
    ultimately show "h' a ! k = (if k \<in> set (j # js) then h a ! k + h b ! k else h a ! k)"
      using Cons.prems(1) b by auto
  qed
  ultimately show ?case by blast
qed

lemma add_loop_sum:
  assumes "length (cases_of h r) = L"
    and "rs \<noteq> [] \<longrightarrow> length (cases_of h (last rs)) = L \<and> distinct (addrs [last rs, r])"
    and "rs = [] \<longrightarrow> L = 0"
  shows "\<exists>h'. add_loop rs r [0..<length (cases_of h r)] h = Inr h' \<and>
           (\<forall>a'. rs = [] \<or> cases (last rs) \<noteq> Some a' \<longrightarrow> h' a' = h a') \<and>
           (rs \<noteq> [] \<longrightarrow> cases_of h' (last rs) = map2 (+) (cases_of h (last rs)) (cases_of h r))"
proof (cases "L = 0")
  case True
  then show ?thesis using assms by simp
next
  case False
  then have rs: "rs \<noteq> []" using assms(3) by blast
  with assms(1,2) False obtain a b where
    a: "cases (last rs) = Some a" and b: "cases r = Some b" and
    la: "length (h a) = L" and lb: "length (h b) = L"
    by (auto simp: cases_of_def split: option.splits)
  have ab: "a \<noteq> b" using assms(2) rs a b by simp
  have "distinct [0..<L]" "\<forall>j \<in> set [0..<L]. j < length (h a)" using la by simp_all
  from add_loop_nth [where h = h, OF rs a b ab this] obtain h' where
    run: "add_loop rs r [0..<L] h = Inr h'" and
    fr: "\<forall>a'. a' \<noteq> a \<longrightarrow> h' a' = h a'" and
    len: "length (h' a) = length (h a)" and
    val: "\<forall>k < length (h a). h' a ! k = (if k \<in> set [0..<L] then h a ! k + h b ! k else h a ! k)"
    by blast
  have "h' a = map2 (+) (h a) (h b)"
    using len val la lb by (auto simp: list_eq_iff_nth_eq)
  then have "cases_of h' (last rs) = map2 (+) (cases_of h (last rs)) (cases_of h r)"
    using a b by (simp add: cases_of_def)
  moreover have "add_loop rs r [0..<length (cases_of h r)] h = Inr h'"
    using run assms(1) by simp
  ultimately show ?thesis using fr a rs by auto
qed

subsection \<open>Sums by country\<close>

lemma length_group_sum [simp]: "length (group_sum h L c xs) = L"
  by (simp add: group_sum_def)

lemma nth_group_sum:
  "k < L \<Longrightarrow> group_sum h L c xs ! k =
     sum_list (map (\<lambda>x. cases_of h x ! k) (filter (\<lambda>x. country x = c) xs))"
  by (simp add: group_sum_def)

lemma group_sum_Cons:
  assumes "length (cases_of h x) = L"
  shows "group_sum h L c (x # xs) =
           (if country x = c then map2 (+) (cases_of h x) (group_sum h L c xs) else group_sum h L c xs)"
proof (cases "country x = c")
  case True
  have "group_sum h L c (x # xs) = map2 (+) (cases_of h x) (group_sum h L c xs)"
  proof (rule nth_equalityI)
    show "length (group_sum h L c (x # xs)) = length (map2 (+) (cases_of h x) (group_sum h L c xs))"
      using assms by simp
  next
    fix k assume "k < length (group_sum h L c (x # xs))"
    then have k: "k < L" by simp
    then show "group_sum h L c (x # xs) ! k = map2 (+) (cases_of h x) (group_sum h L c xs) ! k"
      using assms True by (simp add: nth_group_sum)
  qed
  then show ?thesis using True by simp
next
  case False
  then show ?thesis by (simp add: group_sum_def)
qed

lemma group_sum_none:
  assumes "\<forall>x \<in> set xs. country x \<noteq> c"
  shows "group_sum h L c xs = replicate L 0"
proof -
  have "filter (\<lambda>x. country x = c) xs = []" using assms by (simp add: filter_empty_conv)
  then show ?thesis by (simp add: group_sum_def map_replicate_const)
qed

lemma group_sum_cong:
  assumes "\<forall>x \<in> set xs. cases_of h' x = cases_of h x"
  shows "group_sum h' L c xs = group_sum h L c xs"
proof -
  have E: "map (\<lambda>x. cases_of h' x ! k) (filter (\<lambda>x. country x = c) xs) =
        map (\<lambda>x. cases_of h x ! k) (filter (\<lambda>x. country x = c) xs)" for k
    using assms by (intro map_cong) auto
  show ?thesis by (simp only: group_sum_def E)
qed

lemma group_sum_mset:
  assumes "mset xs = mset ys"
  shows "group_sum h L c xs = group_sum h L c ys"
proof -
  have "sum_list (map f (filter P xs)) = sum_list (map f (filter P ys))"
    for f :: "region \<Rightarrow> goint" and P
  proof -
    have "mset (filter P xs) = mset (filter P ys)" using assms by (metis mset_filter)
    then have "mset (map f (filter P xs)) = mset (map f (filter P ys))" by (metis mset_map)
    then show ?thesis by (metis sum_mset_sum_list)
  qed
  then show ?thesis unfolding group_sum_def by simp
qed

lemma map2_add_zero: "length v = L \<Longrightarrow> map2 (+) v (replicate L (0::goint)) = v"
  by (rule nth_equalityI) simp_all

lemma map2_add_assoc:
  "map2 (+) (map2 (+) u v) w = map2 (+) u (map2 (+) v (w :: goint list))"
  by (rule nth_equalityI) (simp_all add: add.assoc)

lemma set_addrs: "set (addrs xs) = {a. \<exists>x \<in> set xs. cases x = Some a}"
  by (induction xs) (auto split: option.splits)

lemma addrs_append: "addrs (xs @ ys) = addrs xs @ addrs ys"
  by (induction xs) (auto split: option.splits)

lemma mset_addrs:
  "mset (addrs xs) = image_mset the (filter_mset (\<lambda>v. v \<noteq> None) (image_mset cases (mset xs)))"
  by (induction xs) (auto split: option.splits)

lemma distinct_addrs_mset:
  assumes "mset xs = mset ys" and "distinct (addrs ys)"
  shows "distinct (addrs xs)"
proof -
  have "mset (addrs xs) = mset (addrs ys)" using assms(1) by (simp add: mset_addrs)
  then show ?thesis using assms(2) mset_eq_imp_distinct_iff by blast
qed

lemma heads_subset: "set (heads c xs) \<subseteq> set xs"
  by (induction xs arbitrary: c) auto

lemma heads_greater:
  assumes "sorted (map country xs)" and "\<forall>x \<in> set xs. c \<le> country x"
  shows "\<forall>r \<in> set (heads c xs). c < country r"
  using assms
proof (induction xs arbitrary: c)
  case Nil
  then show ?case by simp
next
  case (Cons x xs)
  have IH: "\<forall>r \<in> set (heads (country x) xs). country x < country r"
    using Cons.IH [of "country x"] Cons.prems by simp
  have IH': "\<forall>r \<in> set (heads c xs). c < country r"
    using Cons.IH [of c] Cons.prems by simp
  show ?case
  proof (cases "country x = c")
    case True
    then show ?thesis using IH' by simp
  next
    case False
    then have "c < country x" using Cons.prems(2) by auto
    then show ?thesis using False IH by auto
  qed
qed

lemma heads_countries:
  assumes "sorted (map country xs)" and "\<forall>x \<in> set xs. c \<le> country x"
  shows "country ` set (heads c xs) = country ` set xs - {c}"
  using assms
proof (induction xs arbitrary: c)
  case Nil
  then show ?case by simp
next
  case (Cons x xs)
  show ?case
  proof (cases "country x = c")
    case True
    have "country ` set (heads c xs) = country ` set xs - {c}"
      using Cons.IH [of c] Cons.prems by simp
    then show ?thesis using True by auto
  next
    case False
    then have lt: "c < country x" using Cons.prems(2) by auto
    have "country ` set (heads (country x) xs) = country ` set xs - {country x}"
      using Cons.IH [of "country x"] Cons.prems by simp
    moreover have "c \<notin> country ` set xs" using lt Cons.prems(1) by auto
    ultimately show ?thesis using False by auto
  qed
qed

lemma cases_of_frame:
  assumes "\<forall>a. cases y = Some a \<longrightarrow> h' a = h a"
  shows "cases_of h' y = cases_of h y"
  using assms by (simp add: cases_of_def split: option.splits)

text \<open>
  The loop on records sorted by country: it returns unless it meets, before any group is
  open, a record whose name is the initial \<open>c\<close> and whose case sequence is not empty.
  The records it returns are the heads of the groups, and the array of each head holds
  the sum of its group.
\<close>

lemma reduce_loop_sums:
  assumes "sorted (map country xs)" and "\<forall>x \<in> set xs. c \<le> country x"
    and "\<forall>x \<in> set xs. length (cases_of h x) = L"
    and "rs \<noteq> [] \<longrightarrow> length (cases_of h (last rs)) = L"
    and "distinct (addrs ((if rs = [] then [] else [last rs]) @ xs))"
    and "rs = [] \<longrightarrow> L = 0 \<or> (\<forall>x \<in> set xs. country x \<noteq> c)"
  shows "\<exists>h'. reduce_loop xs c rs h = Inr (rs @ heads c xs, h') \<and>
           (\<forall>r \<in> set (heads c xs). cases_of h' r = group_sum h L (country r) xs) \<and>
           (rs \<noteq> [] \<longrightarrow>
              cases_of h' (last rs) = map2 (+) (cases_of h (last rs)) (group_sum h L c xs)) \<and>
           (\<forall>a. a \<notin> set (addrs ((if rs = [] then [] else [last rs]) @ xs)) \<longrightarrow> h' a = h a)"
  using assms
proof (induction xs arbitrary: c rs h)
  case Nil
  then show ?case by (simp add: group_sum_def map_replicate_const map2_add_zero)
next
  case (Cons x xs)
  define t where "t = (if rs = [] then [] else [last rs])"
  have srt: "sorted (map country xs)" and xle: "\<forall>y \<in> set xs. country x \<le> country y"
    and cle: "c \<le> country x" and cle': "\<forall>y \<in> set xs. c \<le> country y"
    using Cons.prems(1,2) by auto
  have lenx: "length (cases_of h x) = L" and lenxs: "\<forall>y \<in> set xs. length (cases_of h y) = L"
    using Cons.prems(3) by auto
  have dist: "distinct (addrs t @ addrs (x # xs))"
    using Cons.prems(5) by (simp add: t_def addrs_append)
  have dist_x: "distinct (addrs ([x] @ xs))" using dist by simp
  have dist_t: "distinct (addrs (t @ xs))"
    using dist by (auto simp: addrs_append split: option.splits)
  show ?case
  proof (cases "country x = c")
    case False
    then have lt: "c < country x" using cle by auto
    have "\<exists>h'. reduce_loop xs (country x) (rs @ [x]) h =
                 Inr ((rs @ [x]) @ heads (country x) xs, h') \<and>
           (\<forall>r \<in> set (heads (country x) xs). cases_of h' r = group_sum h L (country r) xs) \<and>
           (rs @ [x] \<noteq> [] \<longrightarrow> cases_of h' (last (rs @ [x])) =
              map2 (+) (cases_of h (last (rs @ [x]))) (group_sum h L (country x) xs)) \<and>
           (\<forall>a. a \<notin> set (addrs ((if rs @ [x] = [] then [] else [last (rs @ [x])]) @ xs))
                 \<longrightarrow> h' a = h a)"
      using srt xle lenxs lenx dist_x by (intro Cons.IH) simp_all
    then obtain h' where
      run: "reduce_loop xs (country x) (rs @ [x]) h = Inr ((rs @ [x]) @ heads (country x) xs, h')" and
      hs: "\<forall>r \<in> set (heads (country x) xs). cases_of h' r = group_sum h L (country r) xs" and
      lastx: "cases_of h' x = map2 (+) (cases_of h x) (group_sum h L (country x) xs)" and
      fr: "\<forall>a. a \<notin> set (addrs ([x] @ xs)) \<longrightarrow> h' a = h a"
      by auto
    have "reduce_loop (x # xs) c rs h = Inr (rs @ heads c (x # xs), h')"
      using False run by simp
    moreover have "\<forall>r \<in> set (heads c (x # xs)). cases_of h' r = group_sum h L (country r) (x # xs)"
    proof
      fix r assume "r \<in> set (heads c (x # xs))"
      then consider "r = x" | "r \<in> set (heads (country x) xs)" using False by auto
      then show "cases_of h' r = group_sum h L (country r) (x # xs)"
      proof cases
        case 1
        then show ?thesis using lastx group_sum_Cons [OF lenx] by simp
      next
        case 2
        then have "country x < country r" using heads_greater [OF srt xle] by blast
        then have "country x \<noteq> country r" by simp
        then show ?thesis using hs 2 group_sum_Cons [OF lenx] by simp
      qed
    qed
    moreover have "cases_of h' (last rs) = map2 (+) (cases_of h (last rs)) (group_sum h L c (x # xs))"
      if rs: "rs \<noteq> []"
    proof -
      have "\<forall>y \<in> set (x # xs). country y \<noteq> c" using lt xle by auto
      then have "group_sum h L c (x # xs) = replicate L 0" by (rule group_sum_none)
      moreover have "length (cases_of h (last rs)) = L" using Cons.prems(4) rs by blast
      moreover have "cases_of h' (last rs) = cases_of h (last rs)"
      proof (rule cases_of_frame, intro allI impI)
        fix a assume "cases (last rs) = Some a"
        then have "a \<notin> set (addrs (x # xs))" using dist rs by (auto simp: t_def)
        then show "h' a = h a" using fr by simp
      qed
      ultimately show ?thesis by (simp add: map2_add_zero)
    qed
    moreover have "\<forall>a. a \<notin> set (addrs (t @ x # xs)) \<longrightarrow> h' a = h a"
      using fr by (simp add: addrs_append)
    ultimately show ?thesis unfolding t_def by blast
  next
    case True
    have L0: "L = 0" if "rs = []" using Cons.prems(6) that True by auto
    have "\<exists>h1. add_loop rs x [0..<length (cases_of h x)] h = Inr h1 \<and>
           (\<forall>a'. rs = [] \<or> cases (last rs) \<noteq> Some a' \<longrightarrow> h1 a' = h a') \<and>
           (rs \<noteq> [] \<longrightarrow> cases_of h1 (last rs) = map2 (+) (cases_of h (last rs)) (cases_of h x))"
    proof (rule add_loop_sum [OF lenx])
      show "rs \<noteq> [] \<longrightarrow> length (cases_of h (last rs)) = L \<and> distinct (addrs [last rs, x])"
        using Cons.prems(4) dist by (auto simp: t_def split: option.splits)
      show "rs = [] \<longrightarrow> L = 0" using L0 by blast
    qed
    then obtain h1 where
      add: "add_loop rs x [0..<length (cases_of h x)] h = Inr h1" and
      fr1: "\<forall>a'. rs = [] \<or> cases (last rs) \<noteq> Some a' \<longrightarrow> h1 a' = h a'" and
      sum1: "rs \<noteq> [] \<longrightarrow> cases_of h1 (last rs) = map2 (+) (cases_of h (last rs)) (cases_of h x)"
      by blast
    have same: "\<forall>y \<in> set xs. cases_of h1 y = cases_of h y"
    proof
      fix y assume y: "y \<in> set xs"
      show "cases_of h1 y = cases_of h y"
      proof (rule cases_of_frame, intro allI impI)
        fix a assume a: "cases y = Some a"
        then have "a \<in> set (addrs xs)" using y by (auto simp: set_addrs)
        then have "rs = [] \<or> cases (last rs) \<noteq> Some a"
          using dist by (auto simp: t_def split: option.splits)
        then show "h1 a = h a" using fr1 by blast
      qed
    qed
    have gs: "group_sum h1 L c' xs = group_sum h L c' xs" for c'
      using same by (rule group_sum_cong)
    have len1: "rs \<noteq> [] \<longrightarrow> length (cases_of h1 (last rs)) = L"
      using sum1 Cons.prems(4) lenx by simp
    have "\<exists>h'. reduce_loop xs c rs h1 = Inr (rs @ heads c xs, h') \<and>
           (\<forall>r \<in> set (heads c xs). cases_of h' r = group_sum h1 L (country r) xs) \<and>
           (rs \<noteq> [] \<longrightarrow>
              cases_of h' (last rs) = map2 (+) (cases_of h1 (last rs)) (group_sum h1 L c xs)) \<and>
           (\<forall>a. a \<notin> set (addrs ((if rs = [] then [] else [last rs]) @ xs)) \<longrightarrow> h' a = h1 a)"
    proof (intro Cons.IH)
      show "sorted (map country xs)" by (rule srt)
      show "\<forall>y \<in> set xs. c \<le> country y" by (rule cle')
      show "\<forall>y \<in> set xs. length (cases_of h1 y) = L" using same lenxs by simp
      show "rs \<noteq> [] \<longrightarrow> length (cases_of h1 (last rs)) = L" by (rule len1)
      show "distinct (addrs ((if rs = [] then [] else [last rs]) @ xs))"
        using dist_t by (simp add: t_def)
      show "rs = [] \<longrightarrow> L = 0 \<or> (\<forall>x \<in> set xs. country x \<noteq> c)" using L0 by blast
    qed
    then obtain h' where
      run: "reduce_loop xs c rs h1 = Inr (rs @ heads c xs, h')" and
      hs: "\<forall>r \<in> set (heads c xs). cases_of h' r = group_sum h L (country r) xs" and
      lastr: "rs \<noteq> [] \<longrightarrow>
              cases_of h' (last rs) = map2 (+) (cases_of h1 (last rs)) (group_sum h L c xs)" and
      fr: "\<forall>a. a \<notin> set (addrs (t @ xs)) \<longrightarrow> h' a = h1 a"
      unfolding gs t_def by blast
    have "reduce_loop (x # xs) c rs h = Inr (rs @ heads c (x # xs), h')"
      using True add run by simp
    moreover have "\<forall>r \<in> set (heads c (x # xs)). cases_of h' r = group_sum h L (country r) (x # xs)"
    proof
      fix r assume "r \<in> set (heads c (x # xs))"
      then have r: "r \<in> set (heads c xs)" using True by simp
      then have "c < country r" using heads_greater [OF srt cle'] by blast
      then have "country x \<noteq> country r" using True by simp
      then show "cases_of h' r = group_sum h L (country r) (x # xs)"
        using hs r group_sum_Cons [OF lenx] by simp
    qed
    moreover have "cases_of h' (last rs) = map2 (+) (cases_of h (last rs)) (group_sum h L c (x # xs))"
      if rs: "rs \<noteq> []"
    proof -
      have "cases_of h' (last rs) =
              map2 (+) (map2 (+) (cases_of h (last rs)) (cases_of h x)) (group_sum h L c xs)"
        using lastr sum1 rs by simp
      also have "\<dots> = map2 (+) (cases_of h (last rs)) (map2 (+) (cases_of h x) (group_sum h L c xs))"
        by (rule map2_add_assoc)
      also have "map2 (+) (cases_of h x) (group_sum h L c xs) = group_sum h L c (x # xs)"
        using group_sum_Cons [OF lenx] True by simp
      finally show ?thesis .
    qed
    moreover have "\<forall>a. a \<notin> set (addrs (t @ x # xs)) \<longrightarrow> h' a = h a"
    proof (intro allI impI)
      fix a assume a: "a \<notin> set (addrs (t @ x # xs))"
      then have "a \<notin> set (addrs (t @ xs))" by (auto simp: addrs_append split: option.splits)
      then have "h' a = h1 a" using fr by blast
      moreover have "rs = [] \<or> cases (last rs) \<noteq> Some a"
        using a by (auto simp: t_def addrs_append)
      ultimately show "h' a = h a" using fr1 by simp
    qed
    ultimately show ?thesis unfolding t_def by blast
  qed
qed

subsection \<open>Datasets without an empty country name\<close>

text \<open>
  For a dataset whose records have case sequences of one length \<open>L\<close>, share no array
  and have no empty country name, \<open>reduce\<close> returns; the dataset it returns has one
  record per country name, in strictly ascending order, and the case sequence of each is
  the element-wise sum of the source's records of that name.
\<close>

proposition reduce_group_sums:
  assumes "slice_sort_spec srt"
    and "\<forall>x \<in> set (records d). length (cases_of h x) = L"
    and "distinct (addrs (records d))"
    and "\<forall>x \<in> set (records d). country x \<noteq> []"
  shows "\<exists>d' r h'. reduce srt d h = Inr (d', r, h') \<and>
           sorted_wrt (<) (map country (records r)) \<and>
           set (map country (records r)) = set (map country (records d)) \<and>
           (\<forall>x \<in> set (records r). cases_of h' x = group_sum h L (country x) (records d))"
proof -
  from sortCountry_returns [OF assms(1)] obtain d' where sc: "sortCountry srt d = Inr d'" by blast
  define xs where "xs = records d'"
  have m: "mset xs = mset (records d)" and s: "sorted (map country xs)"
    unfolding xs_def by (rule sortCountry_sorted [OF assms(1) sc])+
  have set_eq: "set xs = set (records d)" using m by (rule mset_eq_setD)
  have "\<exists>h'. reduce_loop xs [] [] h = Inr ([] @ heads [] xs, h') \<and>
           (\<forall>r \<in> set (heads [] xs). cases_of h' r = group_sum h L (country r) xs) \<and>
           ([] \<noteq> ([] :: region list) \<longrightarrow>
              cases_of h' (last []) = map2 (+) (cases_of h (last [])) (group_sum h L [] xs)) \<and>
           (\<forall>a. a \<notin> set (addrs ((if [] = ([] :: region list) then [] else [last []]) @ xs))
                 \<longrightarrow> h' a = h a)"
  proof (rule reduce_loop_sums [OF s])
    show "\<forall>x \<in> set xs. [] \<le> country x" by simp
    show "\<forall>x \<in> set xs. length (cases_of h x) = L" using assms(2) set_eq by simp
    show "distinct (addrs ((if [] = ([] :: region list) then [] else [last []]) @ xs))"
      using distinct_addrs_mset [OF m assms(3)] by simp
    show "[] = ([] :: region list) \<longrightarrow> L = 0 \<or> (\<forall>x \<in> set xs. country x \<noteq> [])"
      using assms(4) set_eq by simp
  qed simp
  then obtain h' where
    run: "reduce_loop xs [] [] h = Inr (heads [] xs, h')" and
    hs: "\<forall>r \<in> set (heads [] xs). cases_of h' r = group_sum h L (country r) xs"
    by auto
  define r where "r = \<lparr>header = header d, records = heads [] xs\<rparr>"
  have red: "reduce srt d h = Inr (d', r, h')"
    using run sc by (simp add: reduce_def Let_def xs_def r_def)
  have "sorted_wrt (<) (map country (records r))"
    using reduce_result_countries [OF assms(1) red] by simp
  moreover have "set (map country (records r)) = set (map country (records d))"
  proof -
    have "country ` set (heads [] xs) = country ` set xs - {[]}"
      by (rule heads_countries [OF s]) simp
    then show ?thesis using assms(4) set_eq by (auto simp: r_def)
  qed
  moreover have "\<forall>x \<in> set (records r). cases_of h' x = group_sum h L (country x) (records d)"
    using hs group_sum_mset [OF m] by (simp add: r_def)
  ultimately show ?thesis using red by blast
qed

lemma sum_list_pick:
  fixes a :: goint
  assumes "distinct (map g rs)" and "v \<in> g ` set rs"
  shows "sum_list (map (\<lambda>r. if g r = v then a else 0) rs) = a"
  using assms
proof (induction rs)
  case Nil
  then show ?case by simp
next
  case (Cons r rs)
  show ?case
  proof (cases "g r = v")
    case True
    then have "v \<notin> g ` set rs" using Cons.prems(1) by simp
    then have "\<forall>r' \<in> set rs. g r' \<noteq> v" by blast
    then have "sum_list (map (\<lambda>r. if g r = v then a else 0) rs) = 0"
      by (induction rs) auto
    then show ?thesis using True by simp
  next
    case False
    then show ?thesis using Cons by auto
  qed
qed

lemma sum_by_groups:
  fixes f :: "region \<Rightarrow> goint"
  assumes "distinct (map country rs)" and "country ` set xs \<subseteq> country ` set rs"
  shows "sum_list (map (\<lambda>r. sum_list (map f (filter (\<lambda>x. country x = country r) xs))) rs) =
         sum_list (map f xs)"
  using assms(2)
proof (induction xs)
  case Nil
  then show ?case by simp
next
  case (Cons x xs)
  have "sum_list (map (\<lambda>r. sum_list (map f (filter (\<lambda>y. country y = country r) (x # xs)))) rs) =
        sum_list (map (\<lambda>r. (if country r = country x then f x else 0) +
                            sum_list (map f (filter (\<lambda>y. country y = country r) xs))) rs)"
    by (intro arg_cong [where f = sum_list] map_cong) auto
  also have "\<dots> = sum_list (map (\<lambda>r. if country r = country x then f x else 0) rs) +
                   sum_list (map (\<lambda>r. sum_list (map f (filter (\<lambda>y. country y = country r) xs))) rs)"
    by (rule sum_list_addf)
  also have "sum_list (map (\<lambda>r. if country r = country x then f x else 0) rs) = f x"
    using assms(1) Cons.prems by (intro sum_list_pick) auto
  also have "sum_list (map (\<lambda>r. sum_list (map f (filter (\<lambda>y. country y = country r) xs))) rs) =
             sum_list (map f xs)"
    using Cons by simp
  finally show ?case by simp
qed

lemma sum_cases_column:
  assumes "\<forall>x \<in> set (records d). length (cases_of h x) = L" and "0 \<le> k" and "k < int L"
  shows "sum_cases d k h = Inr (sum_list (map (\<lambda>x. cases_of h x ! nat k) (records d)))"
  using assms by (simp add: sum_cases_def sum_loop_Inr del: sum_loop.simps)

text \<open>
  On such a dataset the column sums of the reduced dataset are those the source had
  before the call, for the indices \<open>0 \<le> k < L\<close> and the offsets \<open>-L \<le> k < 0\<close>.
\<close>

proposition reduce_preserves_sum:
  assumes "slice_sort_spec srt"
    and "\<forall>x \<in> set (records d). length (cases_of h x) = L"
    and "distinct (addrs (records d))"
    and "\<forall>x \<in> set (records d). country x \<noteq> []"
    and "- int L \<le> k" and "k < int L"
  shows "\<exists>d' r h'. reduce srt d h = Inr (d', r, h') \<and> sum_cases r k h' = sum_cases d k h"
proof -
  from reduce_group_sums [OF assms(1-4)] obtain d' r h' where
    red: "reduce srt d h = Inr (d', r, h')" and
    so: "sorted_wrt (<) (map country (records r))" and
    cs: "set (map country (records r)) = set (map country (records d))" and
    gs: "\<forall>x \<in> set (records r). cases_of h' x = group_sum h L (country x) (records d)"
    by blast
  have lenr: "\<forall>x \<in> set (records r). length (cases_of h' x) = L" using gs by simp
  have dist: "distinct (map country (records r))" using so by (simp add: strict_sorted_iff)
  have col: "sum_cases r j h' = sum_cases d j h" if j: "0 \<le> j" "j < int L" for j
  proof -
    have n: "nat j < L" using j by simp
    have "sum_list (map (\<lambda>x. cases_of h' x ! nat j) (records r)) =
          sum_list (map (\<lambda>x. sum_list (map (\<lambda>y. cases_of h y ! nat j)
                                (filter (\<lambda>y. country y = country x) (records d)))) (records r))"
      using gs n by (intro arg_cong [where f = sum_list] map_cong) (simp_all add: nth_group_sum)
    also have "\<dots> = sum_list (map (\<lambda>y. cases_of h y ! nat j) (records d))"
      using dist cs by (intro sum_by_groups) simp_all
    finally show ?thesis
      using sum_cases_column [OF lenr j] sum_cases_column [OF assms(2) j] by simp
  qed
  have "sum_cases r k h' = sum_cases d k h"
  proof (cases "0 \<le> k")
    case True
    then show ?thesis using col assms(6) by blast
  next
    case neg: False
    show ?thesis
    proof (cases "records d")
      case Nil
      then have "records r = []" using cs by simp
      then show ?thesis using Nil neg by (simp add: sum_cases_def)
    next
      case (Cons x xs)
      then have "records r \<noteq> []" using cs by auto
      then obtain y ys where r: "records r = y # ys" by (cases "records r") auto
      have "length (cases_of h x) = L" "length (cases_of h' y) = L"
        using assms(2) lenr Cons r by simp_all
      then have "sum_cases r k h' = sum_cases r (int L + k) h'"
        and "sum_cases d k h = sum_cases d (int L + k) h"
        using neg assms(5) Cons r by (simp_all add: sum_cases_def)
      then show ?thesis using col [of "int L + k"] neg assms(5) by simp
    qed
  qed
  then show ?thesis using red by blast
qed

lemma find_country_heads:
  assumes "\<forall>x \<in> set xs. ef (country x) q \<longrightarrow> country x = s"
    and "\<exists>x \<in> set xs. country x = s" and "ef s q" and "s \<noteq> c"
  shows "\<exists>r. find_country ef q xs = (r, True) \<and> r \<in> set (heads c xs) \<and> country r = s"
  using assms(1,2,4)
proof (induction xs arbitrary: c)
  case Nil
  then show ?case by simp
next
  case (Cons x xs)
  show ?case
  proof (cases "ef (country x) q")
    case True
    then have "country x = s" using Cons.prems(1) by simp
    then show ?thesis using True Cons.prems(3) by simp
  next
    case False
    then have ne: "country x \<noteq> s" using assms(3) by auto
    then have ex: "\<exists>y \<in> set xs. country y = s" using Cons.prems(2) by auto
    have all: "\<forall>y \<in> set xs. ef (country y) q \<longrightarrow> country y = s" using Cons.prems(1) by simp
    show ?thesis
    proof (cases "country x = c")
      case True
      from Cons.IH [OF all ex Cons.prems(3)] show ?thesis using False True by simp
    next
      case diff: False
      have "s \<noteq> country x" using ne by simp
      from Cons.IH [OF all ex this] show ?thesis using False diff by auto
    qed
  qed
qed

text \<open>
  On such a dataset, when the queried name matches (under \<open>EqualFold\<close>) the country
  names of the dataset under exactly one spelling \<open>s\<close>, \<open>filter\<close> returns
  \<open>found = true\<close> and the head of the group \<open>s\<close>, whose array holds the sum of the
  group.
\<close>

proposition filter_returns_group_sum:
  assumes "slice_sort_spec srt"
    and "\<forall>x \<in> set (records d). length (cases_of h x) = L"
    and "distinct (addrs (records d))"
    and "\<forall>x \<in> set (records d). country x \<noteq> []"
    and "\<exists>x \<in> set (records d). country x = s" and "ef s q"
    and "\<forall>x \<in> set (records d). ef (country x) q \<longrightarrow> country x = s"
  shows "\<exists>r d' h'. filter_country ef srt q d h = Inr ((r, True), d', h') \<and> country r = s \<and>
           cases_of h' r = group_sum h L s (records d)"
proof -
  from reduce_group_sums [OF assms(1-4)] obtain d' r0 h' where
    red: "reduce srt d h = Inr (d', r0, h')" and
    gs: "\<forall>x \<in> set (records r0). cases_of h' x = group_sum h L (country x) (records d)"
    by blast
  note R = reduce_Inr [OF red]
  have run: "reduce_loop (records d') [] [] h = Inr (records r0, h')" using R by simp
  have sc: "sortCountry srt d = Inr d'" using R by simp
  have m: "mset (records d') = mset (records d)"
    by (rule sortCountry_sorted(1) [OF assms(1) sc])
  have set_eq: "set (records d') = set (records d)" using m by (rule mset_eq_setD)
  have so: "sorted (map country (records d'))"
    by (rule sortCountry_sorted(2) [OF assms(1) sc])
  have "\<exists>h''. reduce_loop (records d') [] [] h = Inr ([] @ heads [] (records d'), h'') \<and>
           (\<forall>r \<in> set (heads [] (records d')). cases_of h'' r = group_sum h L (country r) (records d')) \<and>
           ([] \<noteq> ([] :: region list) \<longrightarrow>
              cases_of h'' (last []) = map2 (+) (cases_of h (last [])) (group_sum h L [] (records d'))) \<and>
           (\<forall>a. a \<notin> set (addrs ((if [] = ([] :: region list) then [] else [last []]) @ records d'))
                 \<longrightarrow> h'' a = h a)"
  proof (rule reduce_loop_sums [OF so])
    show "\<forall>x \<in> set (records d'). [] \<le> country x" by simp
    show "\<forall>x \<in> set (records d'). length (cases_of h x) = L" using assms(2) set_eq by simp
    show "distinct (addrs ((if [] = ([] :: region list) then [] else [last []]) @ records d'))"
      using distinct_addrs_mset [OF m assms(3)] by simp
    show "[] = ([] :: region list) \<longrightarrow> L = 0 \<or> (\<forall>x \<in> set (records d'). country x \<noteq> [])"
      using assms(4) set_eq by simp
  qed simp
  then have hd: "records r0 = heads [] (records d')" using run by auto
  have s_ne: "s \<noteq> []" using assms(4,5) by auto
  have only: "\<forall>x \<in> set (records d'). ef (country x) q \<longrightarrow> country x = s"
    using assms(7) set_eq by simp
  have some: "\<exists>x \<in> set (records d'). country x = s" using assms(5) set_eq by simp
  obtain r where
    f: "find_country ef q (records d') = (r, True)" and
    rin: "r \<in> set (heads [] (records d'))" and rs: "country r = s"
    using find_country_heads [where ef = ef and q = q and s = s and c = "[]", OF only some assms(6) s_ne]
    by blast
  have "cases_of h' r = group_sum h L s (records d)" using gs rin hd rs by auto
  moreover have "filter_country ef srt q d h = Inr ((r, True), d', h')"
    using red f by (simp add: filter_country_def)
  ultimately show ?thesis using rs by blast
qed

subsection \<open>When \<open>reduce\<close> returns\<close>

text \<open>
  The records the loop returns are the heads of the groups, whatever the store holds. It
  returns when all case sequences have one length and either that length is 0 or no
  country name is empty.
\<close>

lemma reduce_loop_heads:
  "reduce_loop xs c rs h = Inr (rs', h') \<Longrightarrow> rs' = rs @ heads c xs"
proof (induction xs arbitrary: c rs h)
  case Nil
  then show ?case by simp
next
  case (Cons x xs)
  show ?case
  proof (cases "country x \<noteq> c")
    case True
    with Cons.prems have "reduce_loop xs (country x) (rs @ [x]) h = Inr (rs', h')" by simp
    from Cons.IH [OF this] show ?thesis using True by simp
  next
    case False
    with Cons.prems obtain h1 where "reduce_loop xs c rs h1 = Inr (rs', h')"
      by (auto split: sum.splits)
    from Cons.IH [OF this] show ?thesis using False by simp
  qed
qed

lemma add_loop_returns:
  assumes "rs \<noteq> []" and "\<forall>j \<in> set js. j < length (cases_of h (last rs))"
  shows "\<exists>h'. add_loop rs r js h = Inr h'"
  using assms(2)
proof (induction js arbitrary: h)
  case Nil
  then show ?case by simp
next
  case (Cons j js)
  from Cons.prems have j: "j < length (cases_of h (last rs))" by simp
  then obtain a where a: "cases (last rs) = Some a" and ja: "j < length (h a)"
    by (auto simp: cases_of_def split: option.splits)
  then obtain h1 where step: "add_at rs r j h = Inr h1"
    using assms(1) by (simp add: add_at_def)
  have "length (cases_of h1 (last rs)) = length (cases_of h (last rs))"
    using add_at_length [OF step] a by (simp add: cases_of_def)
  then have "\<forall>i \<in> set js. i < length (cases_of h1 (last rs))" using Cons.prems by simp
  from Cons.IH [OF this] show ?case using step by simp
qed

lemma reduce_loop_returns:
  assumes "\<forall>x \<in> set xs. length (cases_of h x) = L"
    and "rs \<noteq> [] \<longrightarrow> length (cases_of h (last rs)) = L"
    and "rs = [] \<longrightarrow> L = 0 \<or> (\<forall>x \<in> set xs. country x \<noteq> c)"
  shows "\<exists>rs' h'. reduce_loop xs c rs h = Inr (rs', h')"
  using assms
proof (induction xs arbitrary: c rs h)
  case Nil
  then show ?case by simp
next
  case (Cons x xs)
  have lenx: "length (cases_of h x) = L" using Cons.prems(1) by simp
  show ?case
  proof (cases "country x \<noteq> c")
    case True
    have "\<exists>rs' h'. reduce_loop xs (country x) (rs @ [x]) h = Inr (rs', h')"
      using Cons.prems(1) by (intro Cons.IH) simp_all
    then show ?thesis using True by simp
  next
    case False
    have "\<exists>h1. add_loop rs x [0..<length (cases_of h x)] h = Inr h1"
    proof (cases "L = 0")
      case True
      then show ?thesis using lenx by simp
    next
      case nz: False
      then have rs: "rs \<noteq> []" using Cons.prems(3) False by auto
      then have "\<forall>j \<in> set [0..<length (cases_of h x)]. j < length (cases_of h (last rs))"
        using Cons.prems(2) lenx by simp
      then show ?thesis by (rule add_loop_returns [OF rs])
    qed
    then obtain h1 where add: "add_loop rs x [0..<length (cases_of h x)] h = Inr h1" by blast
    have same: "length (cases_of h1 y) = length (cases_of h y)" for y
      using add_loop_length [OF add] by (simp add: cases_of_def split: option.splits)
    have "\<exists>rs' h'. reduce_loop xs c rs h1 = Inr (rs', h')"
    proof (intro Cons.IH)
      show "\<forall>y \<in> set xs. length (cases_of h1 y) = L" using Cons.prems(1) same by simp
      show "rs \<noteq> [] \<longrightarrow> length (cases_of h1 (last rs)) = L" using Cons.prems(2) same by simp
      show "rs = [] \<longrightarrow> L = 0 \<or> (\<forall>y \<in> set xs. country y \<noteq> c)" using Cons.prems(3) False by auto
    qed
    then show ?thesis using False add by simp
  qed
qed

lemma reduce_returns:
  assumes "slice_sort_spec srt"
    and "\<forall>x \<in> set (records d). length (cases_of h x) = L"
    and "L = 0 \<or> (\<forall>x \<in> set (records d). country x \<noteq> [])"
  shows "\<exists>d' r h'. reduce srt d h = Inr (d', r, h') \<and> records r = heads [] (records d')"
proof -
  from sortCountry_returns [OF assms(1)] obtain d' where sc: "sortCountry srt d = Inr d'" by blast
  have set_eq: "set (records d') = set (records d)"
    using sortCountry_sorted(1) [OF assms(1) sc] by (rule mset_eq_setD)
  have "\<exists>rs' h'. reduce_loop (records d') [] [] h = Inr (rs', h')"
    using assms(2,3) set_eq by (intro reduce_loop_returns [where L = L]) auto
  then obtain rs' h' where run: "reduce_loop (records d') [] [] h = Inr (rs', h')"
    by blast
  then have "rs' = heads [] (records d')" using reduce_loop_heads by fastforce
  then show ?thesis using run sc by (simp add: reduce_def Let_def)
qed

lemma reduce_count:
  assumes "slice_sort_spec srt" and "reduce srt d h = Inr (d', r, h')"
    and "\<forall>x \<in> set (records d). country x \<noteq> []"
  shows "length (records r) = card (country ` set (records d))"
proof -
  note R = reduce_Inr [OF assms(2)]
  have sc: "sortCountry srt d = Inr d'" using R by simp
  have hd: "records r = heads [] (records d')"
    using R reduce_loop_heads by fastforce
  have set_eq: "set (records d') = set (records d)"
    using sortCountry_sorted(1) [OF assms(1) sc] by (rule mset_eq_setD)
  have "country ` set (heads [] (records d')) = country ` set (records d') - {[]}"
    by (rule heads_countries [OF sortCountry_sorted(2) [OF assms(1) sc]]) simp
  then have cs: "country ` set (records r) = country ` set (records d)"
    using hd set_eq assms(3) by auto
  have "distinct (map country (records r))"
    using reduce_result_countries [OF assms(1,2)] by (simp add: strict_sorted_iff)
  then have "card (set (map country (records r))) = length (records r)"
    using distinct_card by fastforce
  then show ?thesis using cs by simp
qed

subsection \<open>Concrete runs\<close>

text \<open>
  The scenario, run with the insertion sort above: the two records of Country A are
  merged into the array of the one the sort put first (here North: the insertion sort
  keeps equal names in their order; \<open>sort.Slice\<close> need not), and the caller's records
  are left in sorted order.
\<close>

lemma reduce_AB:
  "reduce isort_by data_AB heap_AB =
     Inr (data_AB\<lparr>records := [north_A, south_A, only_B]\<rparr>,
          data_AB\<lparr>records := [north_A, only_B]\<rparr>,
          heap_AB(0 := [5, 7, 9]))"
  by (simp add: reduce_def Let_def sortCountry_def isort_by_def less_country_def data_AB_def
      north_A_def south_A_def only_B_def heap_AB_def empty_heap_def cases_of_def add_at_def)

lemma reduce_BA:
  "reduce isort_by data_BA heap_AB =
     Inr (data_BA\<lparr>records := [north_A, only_B]\<rparr>, data_BA\<lparr>records := [north_A, only_B]\<rparr>, heap_AB)"
  by (simp add: reduce_def Let_def sortCountry_def isort_by_def less_country_def data_BA_def
      data_AB_def north_A_def only_B_def cases_of_def)

lemma sort_latest_AB:
  "sort_latest isort_by (data_AB\<lparr>records := [north_A, only_B]\<rparr>) (heap_AB(0 := [5, 7, 9])) =
     Inr (data_AB\<lparr>records := [north_A, only_B]\<rparr>)"
  by (simp add: sort_latest_def Let_def isort_by_def less_latest_def data_AB_def north_A_def
      only_B_def heap_AB_def empty_heap_def cases_of_def)

text \<open>
  On records of unequal length the outcome of \<open>sort\<close> depends on the order it finds:
  with the longer sequence first the closure asks the shorter one for a column it does
  not have and panics; with the shorter one first the records are ordered by that
  record's last column, here the first day.
\<close>

lemma sort_latest_unequal_lengths:
  "sort_latest isort_by \<lparr>header = [], records = [hubei, chad2]\<rparr> (empty_heap(0 := [3], 1 := [444, 445]))
     = Inl IndexOutOfRange \<and>
   sort_latest isort_by \<lparr>header = [], records = [chad2, hubei]\<rparr> (empty_heap(0 := [3], 1 := [444, 445]))
     = Inr \<lparr>header = [], records = [hubei, chad2]\<rparr>"
  by (simp add: sort_latest_def Let_def isort_by_def less_latest_def hubei_def chad2_def
      empty_heap_def cases_of_def)

text \<open>
  A second \<open>reduce\<close> of the same source (as \<open>main\<close> does for \<open>-c\<close> together with
  \<open>-t\<close>: \<open>filter\<close> reduces \<open>conf\<close>, then the top-10 block reduces it again) adds
  an array that already holds a sum once more: here Country A ends with \<open>[9,12,15]\<close>
  instead of \<open>[5,7,9]\<close>.
\<close>

lemma reduce_again_counts_twice:
  "reduce isort_by (data_AB\<lparr>records := [north_A, south_A, only_B]\<rparr>) (heap_AB(0 := [5, 7, 9])) =
     Inr (data_AB\<lparr>records := [north_A, south_A, only_B]\<rparr>,
          data_AB\<lparr>records := [north_A, only_B]\<rparr>,
          heap_AB(0 := [9, 12, 15]))"
  by (simp add: reduce_def Let_def sortCountry_def isort_by_def less_country_def data_AB_def
      north_A_def south_A_def only_B_def heap_AB_def empty_heap_def cases_of_def add_at_def)

text \<open>
  After the first \<open>reduce\<close> the source itself sums to 16 on the latest day, not to the
  10 it summed to before the call: the head of Country A now holds the group's sum and
  the other record of the group is still there.
\<close>

lemma sum_source_after_reduce:
  "sum_cases data_AB (- 1) heap_AB = Inr 10 \<and>
   sum_cases (data_AB\<lparr>records := [north_A, only_B]\<rparr>) (- 1) (heap_AB(0 := [5, 7, 9])) = Inr 10 \<and>
   sum_cases (data_AB\<lparr>records := [north_A, south_A, only_B]\<rparr>) (- 1) (heap_AB(0 := [5, 7, 9])) = Inr 16"
  by (simp add: sum_cases_def data_AB_def north_A_def south_A_def only_B_def heap_AB_def
      empty_heap_def cases_of_def)

lemma group_sum_AB:
  "group_sum heap_AB 3 ''Country A'' (records data_AB) = [5, 7, 9] \<and>
   group_sum heap_AB 3 ''Country B'' (records data_AB) = [0, 0, 1]"
  by (simp add: group_sum_def data_AB_def north_A_def south_A_def only_B_def heap_AB_def
      empty_heap_def cases_of_def upt_rec [of 0 3] upt_rec [of "Suc 0" 3] upt_rec [of "Suc (Suc 0)" 3]
      numeral_3_eq_3)

subsection \<open>The source dataset after \<open>reduce\<close>\<close>

text \<open>
  C3 (as stated: \<open>reduce\<close> never mutates the source dataset, its records stay in their
  original order). On Country B before Country A the call leaves the caller's records
  in the order A, B.
\<close>

theorem reduce_reorders_source:
  "reduce isort_by data_BA heap_AB =
     Inr (data_BA\<lparr>records := [north_A, only_B]\<rparr>, data_BA\<lparr>records := [north_A, only_B]\<rparr>, heap_AB) \<and>
   records (data_BA\<lparr>records := [north_A, only_B]\<rparr>) \<noteq> records data_BA"
  using reduce_BA by (simp add: data_BA_def north_A_def only_B_def)

text \<open>
  C3 (amended). \<open>reduce\<close> sorts the source in place and otherwise keeps its records:
  when it returns, the caller's dataset has the same header and the same records (each
  with its names, coordinates and case array), in ascending order of country name, and
  every case array has the length it had.
\<close>

theorem reduce_source_reordered:
  assumes "slice_sort_spec srt" and "reduce srt d h = Inr (d', r, h')"
  shows "header d' = header d \<and> mset (records d') = mset (records d) \<and>
         sorted_wrt (\<lambda>a b. country a \<le> country b) (records d') \<and>
         (\<forall>a. length (h' a) = length (h a))"
proof -
  note R = reduce_Inr [OF assms(2)]
  have sc: "sortCountry srt d = Inr d'" using R by simp
  have "header d' = header d" by (rule sortCountry_sorted(3) [OF assms(1) sc])
  moreover have "mset (records d') = mset (records d)"
    by (rule sortCountry_sorted(1) [OF assms(1) sc])
  moreover have "sorted_wrt (\<lambda>a b. country a \<le> country b) (records d')"
    using sortCountry_sorted(2) [OF assms(1) sc] by (simp add: sorted_map)
  moreover have "\<forall>a. length (h' a) = length (h a)"
    using R reduce_loop_length by blast
  ultimately show ?thesis by blast
qed

theorem reduce_source_reordered_witness:
  "slice_sort_spec (isort_by :: region closure \<Rightarrow> region list \<Rightarrow> error + region list) \<and>
   reduce isort_by data_BA heap_AB =
     Inr (data_BA\<lparr>records := [north_A, only_B]\<rparr>, data_BA\<lparr>records := [north_A, only_B]\<rparr>, heap_AB) \<and>
   header (data_BA\<lparr>records := [north_A, only_B]\<rparr>) = header data_BA \<and>
   mset [north_A, only_B] = mset (records data_BA) \<and>
   sorted_wrt (\<lambda>a b. country a \<le> country b) [north_A, only_B]"
  using reduce_source_reordered [OF isort_by_spec reduce_BA] isort_by_spec reduce_BA
  by simp

subsection \<open>Idempotence\<close>

text \<open>
  C4. Reducing a dataset that \<open>reduce\<close> returned gives that dataset again: the same
  header and records in the same order, with no array written. (When the first call
  panics there is no dataset to reduce, and both sides of
  \<open>reduce(reduce(D)) == reduce(D)\<close> are that panic.)
\<close>

theorem reduce_idempotent:
  assumes "slice_sort_spec srt" and "reduce srt d h = Inr (d1, r1, h1)"
  shows "reduce srt r1 h1 = Inr (r1, r1, h1)"
proof -
  note C = reduce_result_countries [OF assms]
  from sortCountry_returns [OF assms(1)] obtain r2 where sc: "sortCountry srt r1 = Inr r2"
    by blast
  have "records r2 = records r1"
    using sortCountry_sorted(1,2) [OF assms(1) sc] C
    by (intro sorted_perm_unique [where f = country]) simp_all
  then have "r2 = r1" using sortCountry_sorted(4) [OF assms(1) sc] by simp
  then have same: "sortCountry srt r1 = Inr r1" using sc by simp
  have "\<forall>x \<in> set (records r1). [] < country x"
    using C by (auto simp: neq_Nil_conv)
  with C have "reduce_loop (records r1) [] [] h1 = Inr ([] @ records r1, h1)"
    by (intro reduce_loop_no_merge) simp_all
  then show ?thesis by (simp add: reduce_def same)
qed

theorem reduce_idempotent_witness:
  "slice_sort_spec (isort_by :: region closure \<Rightarrow> region list \<Rightarrow> error + region list) \<and>
   reduce isort_by data_AB heap_AB =
     Inr (data_AB\<lparr>records := [north_A, south_A, only_B]\<rparr>,
          data_AB\<lparr>records := [north_A, only_B]\<rparr>, heap_AB(0 := [5, 7, 9])) \<and>
   reduce isort_by (data_AB\<lparr>records := [north_A, only_B]\<rparr>) (heap_AB(0 := [5, 7, 9])) =
     Inr (data_AB\<lparr>records := [north_A, only_B]\<rparr>, data_AB\<lparr>records := [north_A, only_B]\<rparr>,
          heap_AB(0 := [5, 7, 9]))"
  using reduce_idempotent [OF isort_by_spec reduce_AB] isort_by_spec reduce_AB
  by simp

subsection \<open>An empty country name\<close>

text \<open>
  The loop starts with \<open>c := ""\<close>. A record whose country name is empty (it sorts
  first) is therefore taken for a further record of a group that was never opened, and
  \<open>rs[l]\<close> is read with \<open>l = len(rs) - 1 = -1\<close>.
\<close>

text \<open>
  C1 (\<open>reduce\<close> returns one record per distinct country name, with the sums of the
  group). On a dataset of one record with an empty country name and one case count,
  \<open>reduce\<close> does not return a dataset: it panics. (Without an empty name the claim
  holds: \<open>reduce_group_sums\<close>.)
\<close>

theorem reduce_empty_country_panics:
  "reduce isort_by \<lparr>header = [], records = [nameless]\<rparr> heap_13 = Inl IndexOutOfRange"
  by (simp add: reduce_def Let_def sortCountry_def isort_by_def nameless_def heap_13_def
      cases_of_def add_at_def)

text \<open>
  When the record with the empty name has no case counts, the inner loop does not run
  and the record is left out of the result without a panic.
\<close>

lemma reduce_empty_country_dropped:
  "reduce isort_by \<lparr>header = [], records = [nameless\<lparr>cases := None\<rparr>]\<rparr> empty_heap =
     Inr (\<lparr>header = [], records = [nameless\<lparr>cases := None\<rparr>]\<rparr>,
          \<lparr>header = [], records = []\<rparr>, empty_heap)"
  by (simp add: reduce_def Let_def sortCountry_def isort_by_def nameless_def cases_of_def)

text \<open>
  C2 (\<open>sum(reduce(D), k) == sum(D, k)\<close>). On a dataset with Chad and a record with an
  empty country name, \<open>sum(D, 0)\<close> is 4 and \<open>reduce(D)\<close> panics, so there is no
  \<open>sum(reduce(D), 0)\<close>. (Without an empty name the claim holds for the sums the source
  had before the call: \<open>reduce_preserves_sum\<close>.)
\<close>

theorem sum_reduce_empty_country:
  "sum_cases \<lparr>header = [], records = [chad, nameless]\<rparr> 0 heap_13 = Inr 4 \<and>
   reduce isort_by \<lparr>header = [], records = [chad, nameless]\<rparr> heap_13 = Inl IndexOutOfRange"
  by (simp add: sum_cases_def reduce_def Let_def sortCountry_def isort_by_def less_country_def
      nameless_def chad_def heap_13_def cases_of_def add_at_def)

text \<open>
  C9 (\<open>filter\<close> returns \<open>found = true\<close> and the summed record of the country). With a
  record with an empty country name beside the record of US, \<open>filter(D, "us")\<close> panics
  in its call of \<open>reduce\<close>, although US is present under one spelling. (Without an
  empty name the claim holds: \<open>filter_returns_group_sum\<close>.)
\<close>

theorem filter_empty_country_panics:
  "equal_fold_ascii (country us) ''us'' \<and>
   filter_country equal_fold_ascii isort_by ''us'' \<lparr>header = [], records = [nameless, us]\<rparr> heap_13
     = Inl IndexOutOfRange"
  by (simp add: filter_country_def reduce_def Let_def sortCountry_def isort_by_def less_country_def
      nameless_def us_def heap_13_def cases_of_def add_at_def equal_fold_ascii_def ascii_lower_def)

section \<open>Top n\<close>

lemma sorted_wrt_short: "length xs < 2 \<Longrightarrow> sorted_wrt P xs"
  by (cases xs; cases "tl xs") auto

lemma map_nth_take:
  "n \<le> length xs \<Longrightarrow> map (\<lambda>i. f (xs ! i)) [0..<n] = map f (take n xs)"
  by (simp add: list_eq_iff_nth_eq)

text \<open>
  Whenever \<open>reduce\<close> and \<open>sort\<close> return on records of one length, the records are in
  non-increasing order of the latest count and the loop prints the first \<open>n\<close> of them.
\<close>

lemma sorted_after_sort:
  assumes "slice_sort_spec srt"
    and "\<forall>x \<in> set (records d). length (cases_of h x) = L"
    and "reduce srt d h = Inr (d1, r, h1)"
    and "sort_latest srt r h1 = Inr r'"
  shows "sorted_wrt (\<lambda>a b. sint (last (cases_of h1 b)) \<le> sint (last (cases_of h1 a))) (records r') \<and>
         mset (records r') = mset (records r) \<and>
         (\<forall>n out. topN srt n d h = Inr out \<longrightarrow>
            out = map (\<lambda>x. (country x, last (cases_of h1 x))) (take n (records r')))"
proof (intro conjI allI impI)
  note len = reduce_cases_length [OF assms(1,3,2)]
  show m: "mset (records r') = mset (records r)" by (rule sort_latest_mset [OF assms(1,4)])
  show "sorted_wrt (\<lambda>a b. sint (last (cases_of h1 b)) \<le> sint (last (cases_of h1 a))) (records r')"
  proof (cases "length (records r) < 2")
    case True
    then have "length (records r') < 2" using m mset_eq_length by fastforce
    then show ?thesis by (rule sorted_wrt_short)
  next
    case False
    have len': "\<forall>x \<in> set (records r'). length (cases_of h1 x) = L"
      using len mset_eq_setD [OF m] by simp
    show ?thesis
    proof (cases "L = 0")
      case True
      then have e: "\<forall>x \<in> set (records r'). cases_of h1 x = []" using len' by simp
      show ?thesis
        by (rule sorted_wrt_mono_rel [OF _ sorted_wrt_true]) (simp add: e)
    next
      case L: False
      from assms(4) have r': "srt (less_latest h1) (records r) = Inr (records r')"
        by (auto simp: sort_latest_def split: sum.splits)
      have "follows (less_latest h1) (latest_greater h1 (L - 1)) (records r)"
        using len L by (intro follows_latest) simp_all
      then have S: "sorted_wrt (\<lambda>a b. \<not> latest_greater h1 (L - 1) b a) (records r')"
        using assms(1) strict_weak_latest r' unfolding slice_sort_spec_def by blast
      have E: "cases_of h1 x ! (L - 1) = last (cases_of h1 x)" if "x \<in> set (records r')" for x
        using len' that L by (auto simp: last_conv_nth)
      show ?thesis
      proof (rule sorted_wrt_mono_rel [OF _ S])
        fix a b assume "a \<in> set (records r')" "b \<in> set (records r')"
          and "\<not> latest_greater h1 (L - 1) b a"
        then show "sint (last (cases_of h1 b)) \<le> sint (last (cases_of h1 a))"
          using E by (simp add: latest_greater_def not_less)
      qed
    qed
  qed
next
  fix n out assume "topN srt n d h = Inr out"
  then have t: "top_rows [0..<n] r' h1 = Inr out" using assms(3,4) by (simp add: topN_def)
  then have "n \<le> length (records r')" using top_rows_short [of r' n h1] by (cases "n \<le> length (records r')") auto
  then have "map (\<lambda>i. (country (records r' ! i), last (cases_of h1 (records r' ! i)))) [0..<n] =
             map (\<lambda>x. (country x, last (cases_of h1 x))) (take n (records r'))"
    by (rule map_nth_take [where f = "\<lambda>x. (country x, last (cases_of h1 x))"])
  then show "out = map (\<lambda>x. (country x, last (cases_of h1 x))) (take n (records r'))"
    using t unfolding top_rows_Inr by simp
qed

lemma sort_latest_returns:
  assumes "slice_sort_spec srt"
    and "\<forall>x \<in> set (records r). length (cases_of h x) = L" and "0 < L"
  shows "\<exists>r'. sort_latest srt r h = Inr r'"
  using sort_follows [OF assms(1) strict_weak_latest follows_latest [OF assms(2,3)]]
  by (auto simp: sort_latest_def)

lemma topN_CC:
  "topN isort_by 2 data_CC heap_CC = Inr [(''China'', 445), (''Chad'', 5)]"
  by (simp add: topN_def reduce_def Let_def sortCountry_def sort_latest_def isort_by_def
      less_country_def less_latest_def data_CC_def chad2_def hubei_def heap_CC_def empty_heap_def
      cases_of_def add_at_def numeral_2_eq_2)

text \<open>
  C6 (as stated, for every dataset whose records have case sequences of one length). On
  two countries of a table without date columns that length is 0, \<open>sort\<close> reads
  \<open>cases[len(d.records[0].cases)-1]\<close> at index \<open>-1\<close>, and the run panics: there is no
  sorted sequence and no first \<open>n\<close> records.
\<close>

theorem topN_no_date_column:
  "map (\<lambda>x. length (cases_of empty_heap x)) (records data_nodates) = [0, 0] \<and>
   topN isort_by 2 data_nodates empty_heap = Inl IndexOutOfRange"
  by (simp add: topN_def reduce_def Let_def sortCountry_def sort_latest_def isort_by_def
      less_country_def less_latest_def data_nodates_def chad_def us_def cases_of_def)

text \<open>
  C6 (amended). For a dataset whose records all have case sequences of one length
  \<open>L \<ge> 1\<close> and no empty country name, \<open>reduce\<close> and then \<open>sort\<close> return; the
  records they leave are those of the reduced dataset, one per country name, in
  non-increasing order of the latest day's count (signed comparison of the stored
  values), and for every \<open>n\<close> up to their number the top-n loop prints the first \<open>n\<close>
  of them.
\<close>

theorem topN_sorted_by_latest:
  assumes "slice_sort_spec srt"
    and "\<forall>x \<in> set (records d). length (cases_of h x) = L" and "0 < L"
    and "\<forall>x \<in> set (records d). country x \<noteq> []"
  shows "\<exists>d1 r h1 r'.
           reduce srt d h = Inr (d1, r, h1) \<and> sort_latest srt r h1 = Inr r' \<and>
           mset (records r') = mset (records r) \<and>
           sorted_wrt (\<lambda>a b. sint (last (cases_of h1 b)) \<le> sint (last (cases_of h1 a))) (records r') \<and>
           length (records r') = card (country ` set (records d)) \<and>
           (\<forall>n \<le> length (records r'). topN srt n d h =
              Inr (map (\<lambda>x. (country x, last (cases_of h1 x))) (take n (records r'))))"
proof -
  from reduce_returns [OF assms(1,2)] assms(4) obtain d1 r h1 where
    red: "reduce srt d h = Inr (d1, r, h1)" by blast
  note len = reduce_cases_length [OF assms(1) red assms(2)]
  from sort_latest_returns [OF assms(1) len assms(3)] obtain r' where
    st: "sort_latest srt r h1 = Inr r'" by blast
  note S = sorted_after_sort [OF assms(1,2) red st]
  have m: "mset (records r') = mset (records r)" using S by blast
  have cnt: "length (records r') = card (country ` set (records d))"
    using reduce_count [OF assms(1) red assms(4)] m mset_eq_length by fastforce
  have top: "topN srt n d h = Inr (map (\<lambda>x. (country x, last (cases_of h1 x))) (take n (records r')))"
    if n: "n \<le> length (records r')" for n
  proof -
    have "\<forall>i \<in> set [0..<n]. i < length (records r') \<and> cases_of h1 (records r' ! i) \<noteq> []"
    proof
      fix i assume "i \<in> set [0..<n]"
      then have i: "i < length (records r')" using n by simp
      then have "records r' ! i \<in> set (records r')" by (rule nth_mem)
      then have "records r' ! i \<in> set (records r)" using m mset_eq_setD by blast
      then have "length (cases_of h1 (records r' ! i)) = L" using len by blast
      then show "i < length (records r') \<and> cases_of h1 (records r' ! i) \<noteq> []"
        using i assms(3) by auto
    qed
    then have "top_rows [0..<n] r' h1 =
        Inr (map (\<lambda>i. (country (records r' ! i), last (cases_of h1 (records r' ! i)))) [0..<n])"
      unfolding top_rows_Inr by simp
    moreover have "map (\<lambda>i. (country (records r' ! i), last (cases_of h1 (records r' ! i)))) [0..<n] =
             map (\<lambda>x. (country x, last (cases_of h1 x))) (take n (records r'))"
      using n by (rule map_nth_take [where f = "\<lambda>x. (country x, last (cases_of h1 x))"])
    ultimately show ?thesis using red st by (simp add: topN_def)
  qed
  show ?thesis using red st S cnt top by blast
qed

theorem topN_sorted_by_latest_witness:
  "slice_sort_spec (isort_by :: region closure \<Rightarrow> region list \<Rightarrow> error + region list) \<and>
   map (\<lambda>x. length (cases_of heap_CC x)) (records data_CC) = [2, 2] \<and>
   map country (records data_CC) = [''Chad'', ''China''] \<and>
   topN isort_by 2 data_CC heap_CC = Inr [(''China'', 445), (''Chad'', 5)]"
proof -
  have u: "\<forall>x \<in> set (records data_CC). length (cases_of heap_CC x) = 2"
    and e: "\<forall>x \<in> set (records data_CC). country x \<noteq> []"
    by (simp_all add: data_CC_def chad2_def hubei_def heap_CC_def cases_of_def)
  have "\<exists>out. topN isort_by 2 data_CC heap_CC = Inr out"
    using topN_sorted_by_latest [OF isort_by_spec u _ e] topN_CC by simp
  then show ?thesis using isort_by_spec topN_CC
    by (simp add: data_CC_def chad2_def hubei_def heap_CC_def cases_of_def)
qed

text \<open>
  C7. The loop reads \<open>records[i]\<close> for every \<open>i < n\<close> without a check: when the
  reduced dataset has fewer than \<open>n\<close> records the run ends in an index-out-of-range
  panic, and a run that prints \<open>n\<close> rows had at least \<open>n\<close> records. The same holds
  for the loop of \<open>covid.go\<close> over the decoded dataset.
\<close>

theorem topN_needs_n_records:
  assumes "slice_sort_spec srt" and "reduce srt d h = Inr (d', r, h')"
  shows "(length (records r) < n \<longrightarrow> topN srt n d h = Inl IndexOutOfRange) \<and>
         (\<forall>out. topN srt n d h = Inr out \<longrightarrow> n \<le> length (records r) \<and> length out = n) \<and>
         (length (records d) < n \<longrightarrow> top_names_sorted srt n d h = Inl IndexOutOfRange)"
proof (intro conjI impI allI)
  assume short: "length (records r) < n"
  show "topN srt n d h = Inl IndexOutOfRange"
  proof (cases "sort_latest srt r h'")
    case (Inl e)
    then show ?thesis using assms(2) sort_latest_error [OF assms(1)] by (auto simp: topN_def)
  next
    case (Inr r')
    then have "length (records r') < n" using sort_latest_length [OF assms(1) Inr] short by simp
    then show ?thesis using assms(2) Inr by (simp add: topN_def top_rows_short)
  qed
next
  assume short: "length (records d) < n"
  show "top_names_sorted srt n d h = Inl IndexOutOfRange"
  proof (cases "sort_latest srt d h")
    case (Inl e)
    then show ?thesis using sort_latest_error [OF assms(1)] by (auto simp: top_names_sorted_def)
  next
    case (Inr d2)
    then have "length (records d2) < n" using sort_latest_length [OF assms(1) Inr] short by simp
    then show ?thesis using Inr by (simp add: top_names_sorted_def top_names_short)
  qed
next
  fix out assume ok: "topN srt n d h = Inr out"
  then obtain r' where r': "sort_latest srt r h' = Inr r'" and t: "top_rows [0..<n] r' h' = Inr out"
    using assms(2) by (auto simp: topN_def split: sum.splits)
  have "\<not> length (records r') < n" using top_rows_short [of r' n h'] t by auto
  then show "n \<le> length (records r)" using sort_latest_length [OF assms(1) r'] by simp
  show "length out = n" using t unfolding top_rows_Inr by simp
qed

theorem topN_needs_n_records_witness:
  "slice_sort_spec (isort_by :: region closure \<Rightarrow> region list \<Rightarrow> error + region list) \<and>
   length (records (data_AB\<lparr>records := [north_A, only_B]\<rparr>)) < 10 \<and>
   topN isort_by 10 data_AB heap_AB = Inl IndexOutOfRange \<and>
   top_names_sorted isort_by 10 data_AB heap_AB = Inl IndexOutOfRange"
  using topN_needs_n_records [OF isort_by_spec reduce_AB, of 10] isort_by_spec
  by (simp add: data_AB_def)

section \<open>The remote fetcher\<close>

text \<open>
  C8 (as stated: a fetch that the timeout cuts short fails with a condition of its own).
  A request that the deadline ends after 11 seconds is reported by the same branch,
  \<open>"cannot get data"\<close>, as a request that fails for any other reason than a rate limit.
\<close>

theorem getRemote_timeout_not_distinct:
  "getRemote 0 False (answers_after 0 (11 * second) ''payload'') ''time_series_covid19_deaths_global.csv''
     = (Exit CannotGetData DeadlineExceeded 1, 1) \<and>
   getRemote 0 False (fails_with OtherError) ''time_series_covid19_deaths_global.csv''
     = (Exit CannotGetData OtherError 1, 1) \<and>
   condition (Exit CannotGetData DeadlineExceeded 1 :: string fetch) =
     condition (Exit CannotGetData OtherError 1 :: string fetch)"
  by (simp add: getRemote_def Let_def remoteServerTimeout_def answers_after_def fails_with_def
      condition_def second_def)

text \<open>
  C8 (amended). Every fetch makes at most one request, with a deadline 10 seconds after
  its own start, and every failure ends the process with status 1. A request that
  would take longer than the 10 seconds ends the fetch through the branch shared with
  every error that is not a rate limit; one that takes no longer is delivered. A context
  that is already done before the request ends the fetch through the branch of its own,
  without a request.
\<close>

theorem getRemote_timeout:
  "snd (getRemote now done get p) \<le> 1 \<and>
   (\<forall>m err s. fst (getRemote now done get p) = Exit m err s \<longrightarrow> s = 1) \<and>
   getRemote now False get p =
     (case get (now + 10 * second) (''csse_covid_19_data/csse_covid_19_time_series/'' @ p) of
        Inl err \<Rightarrow> (Exit (if err = RateLimitError then HitRateLimit else CannotGetData) err 1, 1)
      | Inr content \<Rightarrow> (Sent content, 1)) \<and>
   (10 * second < t \<longrightarrow>
      getRemote now False (answers_after now t c) p = (Exit CannotGetData DeadlineExceeded 1, 1)) \<and>
   (t \<le> 10 * second \<longrightarrow> getRemote now False (answers_after now t c) p = (Sent c, 1)) \<and>
   getRemote now True get p = (Exit CannotGetDataDone DeadlineExceeded 1, 0)"
  by (auto simp: getRemote_def Let_def remoteServerTimeout_def answers_after_def split: sum.splits)

theorem getRemote_timeout_witness:
  "10 * second < 11 * second \<and>
   getRemote 0 False (answers_after 0 (11 * second) ''payload'') ''time_series_covid19_deaths_global.csv''
     = (Exit CannotGetData DeadlineExceeded 1, 1) \<and>
   9 * second \<le> 10 * second \<and>
   getRemote 0 False (answers_after 0 (9 * second) ''payload'') ''time_series_covid19_deaths_global.csv''
     = (Sent ''payload'', 1)"
proof -
  have late: "10 * second < 11 * second" and early: "9 * second \<le> 10 * second"
    by (simp_all add: second_def)
  have "getRemote 0 False (answers_after 0 (11 * second) ''payload'')
          ''time_series_covid19_deaths_global.csv'' = (Exit CannotGetData DeadlineExceeded 1, 1)"
    using getRemote_timeout [of 0 False "answers_after 0 (11 * second) ''payload''"
            "''time_series_covid19_deaths_global.csv''" "11 * second" "''payload''"] late
    by (elim conjE) simp
  moreover have "getRemote 0 False (answers_after 0 (9 * second) ''payload'')
          ''time_series_covid19_deaths_global.csv'' = (Sent ''payload'', 1)"
    using getRemote_timeout [of 0 False "answers_after 0 (9 * second) ''payload''"
            "''time_series_covid19_deaths_global.csv''" "9 * second" "''payload''"] early
    by (elim conjE) simp
  ultimately show ?thesis using late early by blast
qed

end
